theory Spec2Isabelle
  imports Complex_Main "HOL-Library.Multiset"
begin

section \<open>Terms, models and the evaluator\<close>

text \<open>
  The projection plugin of \<^verbatim>\<open>qe_arith.cpp\<close> works on terms of the host prover. The
  plugin only looks at a term through the recognisers of \<^verbatim>\<open>arith_util\<close> and
  \<^verbatim>\<open>ast_manager\<close> (\<^verbatim>\<open>is_add\<close>, \<^verbatim>\<open>is_mul\<close>, \<^verbatim>\<open>is_le\<close>, \<^verbatim>\<open>is_ite\<close>, ...), so a term
  is a tagged variant with one constructor per recogniser. The binary recognisers
  (\<^verbatim>\<open>is_sub(t, t1, t2)\<close>, \<^verbatim>\<open>is_mod(t, t1, t2)\<close>, \<^verbatim>\<open>is_le(t, t1, t2)\<close>, ...) have
  binary constructors; sums, products and \<^verbatim>\<open>distinct\<close> are n-ary, and
  \<^verbatim>\<open>is_mul(t, t1, t2)\<close> is the product with exactly two arguments.
\<close>

datatype esort = IntS | RealS | BoolS

datatype expr =
    ENum rat bool
  | EApp string esort "expr list"
  | EAdd "expr list"
  | EMul "expr list"
  | ESub expr expr
  | EUminus expr
  | EMod expr expr
  | EIte expr expr expr
  | ELe expr expr
  | EGe expr expr
  | ELt expr expr
  | EGt expr expr
  | EEq expr expr
  | EDistinct "expr list"
  | ENot expr
  | ETrue
  | EFalse

datatype val = VNum rat | VBool bool

text \<open>A model interprets every uninterpreted symbol; a constant is a symbol applied
  to no argument.\<close>

type_synonym model = "string \<Rightarrow> val list \<Rightarrow> val"

text \<open>Modelled from the spec: the sort of a term (\<^verbatim>\<open>arith_util::is_int\<close>,
  \<^verbatim>\<open>is_real\<close>) is declared outside this file; a term carries a numeric sort (int or
  real) or the Boolean sort. Numerals and uninterpreted applications carry their sort,
  an arithmetic operator has the sort of its first argument.\<close>

fun sort_of :: "expr \<Rightarrow> esort" where
  "sort_of (ENum r i) = (if i then IntS else RealS)"
| "sort_of (EApp f s args) = s"
| "sort_of (EAdd []) = RealS"
| "sort_of (EAdd (a # as)) = sort_of a"
| "sort_of (EMul []) = RealS"
| "sort_of (EMul (a # as)) = sort_of a"
| "sort_of (ESub a b) = sort_of a"
| "sort_of (EUminus a) = sort_of a"
| "sort_of (EMod a b) = IntS"
| "sort_of (EIte g a b) = sort_of a"
| "sort_of e = BoolS"

definition is_int :: "expr \<Rightarrow> bool" where
  "is_int e = (sort_of e = IntS)"

definition is_real :: "expr \<Rightarrow> bool" where
  "is_real e = (sort_of e = RealS)"

definition is_arith :: "expr \<Rightarrow> bool" where
  "is_arith e = (is_int e \<or> is_real e)"

text \<open>\<^verbatim>\<open>a.is_numeral(val, r)\<close> on an evaluated term leaves \<^verbatim>\<open>r\<close> at its initial value
  (a default \<^verbatim>\<open>rational\<close> is 0) when the value is not a numeral.\<close>

fun num :: "val \<Rightarrow> rat" where
  "num (VNum r) = r"
| "num (VBool b) = 0"

definition is_true :: "val \<Rightarrow> bool" where
  "is_true v = (v = VBool True)"

text \<open>Modelled from the spec: the remainder of the host's integer arithmetic. The
  result lies between 0 and the absolute value of the divisor; a zero divisor leaves
  the dividend.\<close>

definition mod_val :: "rat \<Rightarrow> rat \<Rightarrow> rat" where
  "mod_val a b = (if b = 0 then a else a - \<bar>b\<bar> * of_int \<lfloor>a / \<bar>b\<bar>\<rfloor>)"

text \<open>Modelled from the spec: the model evaluator (\<^verbatim>\<open>model_evaluator\<close>) is outside this
  file; given a term it returns a numeric value or a truth value. The model is total,
  so model completion changes nothing. Equality and \<^verbatim>\<open>distinct\<close> over arithmetic terms
  compare numeric values.\<close>

fun eval :: "model \<Rightarrow> expr \<Rightarrow> val" where
  "eval M (ENum r i) = VNum r"
| "eval M (EApp f s args) = M f (map (eval M) args)"
| "eval M (EAdd args) = VNum (sum_list (map (\<lambda>a. num (eval M a)) args))"
| "eval M (EMul args) = VNum (prod_list (map (\<lambda>a. num (eval M a)) args))"
| "eval M (ESub a b) = VNum (num (eval M a) - num (eval M b))"
| "eval M (EUminus a) = VNum (- num (eval M a))"
| "eval M (EMod a b) = VNum (mod_val (num (eval M a)) (num (eval M b)))"
| "eval M (EIte g a b) = (if is_true (eval M g) then eval M a else eval M b)"
| "eval M (ELe a b) = VBool (num (eval M a) \<le> num (eval M b))"
| "eval M (EGe a b) = VBool (num (eval M a) \<ge> num (eval M b))"
| "eval M (ELt a b) = VBool (num (eval M a) < num (eval M b))"
| "eval M (EGt a b) = VBool (num (eval M a) > num (eval M b))"
| "eval M (EEq a b) =
     VBool (if is_arith a \<or> is_arith b then num (eval M a) = num (eval M b)
            else eval M a = eval M b)"
| "eval M (EDistinct args) =
     VBool (if list_ex is_arith args then distinct (map (\<lambda>a. num (eval M a)) args)
            else distinct (map (eval M) args))"
| "eval M (ENot a) = VBool (\<not> is_true (eval M a))"
| "eval M ETrue = VBool True"
| "eval M EFalse = VBool False"

text \<open>Modelled from the spec: \<^verbatim>\<open>mk_not\<close> (\<^verbatim>\<open>ast_util\<close>) is outside this file; it
  builds the negation of its argument.\<close>

definition mk_not :: "expr \<Rightarrow> expr" where
  "mk_not e = ENot e"

section \<open>The engine facade\<close>

text \<open>\<^verbatim>\<open>opt::model_based_opt\<close> is used as a library. Its rows and variables are the
  structs the plugin reads (\<^verbatim>\<open>m_id\<close>, \<^verbatim>\<open>m_coeff\<close>, \<^verbatim>\<open>m_vars\<close>, \<^verbatim>\<open>m_type\<close>,
  \<^verbatim>\<open>m_mod\<close>).\<close>

datatype ineq_type = t_eq | t_lt | t_le | t_mod

record var =
  m_id :: nat
  m_coeff :: rat

record row =
  m_vars :: "var list"
  r_coeff :: rat
  m_type :: ineq_type
  m_mod :: rat

record model_based_opt =
  m_var2value :: "rat list"
  m_var2is_int :: "bool list"
  m_rows :: "row list"
  m_objective :: "(var list \<times> rat) option"

definition mbo_init :: model_based_opt where
  "mbo_init = \<lparr>m_var2value = [], m_var2is_int = [], m_rows = [], m_objective = None\<rparr>"

text \<open>Modelled from the spec: \<^verbatim>\<open>add_var\<close> registers a new variable with a concrete
  numeric seed and returns a stable id; ids are handed out in sequence.\<close>

definition add_var :: "rat \<Rightarrow> bool \<Rightarrow> model_based_opt \<Rightarrow> nat \<times> model_based_opt" where
  "add_var r i mbo =
     (length (m_var2value mbo),
      mbo\<lparr>m_var2value := m_var2value mbo @ [r], m_var2is_int := m_var2is_int mbo @ [i]\<rparr>)"

text \<open>Modelled from the spec: \<^verbatim>\<open>add_constraint(coeffs, c, type)\<close> adds the row
  \<open>\<Sum> c\<^sub>i x\<^sub>i + c R 0\<close>.\<close>

definition add_constraint :: "var list \<Rightarrow> rat \<Rightarrow> ineq_type \<Rightarrow> model_based_opt \<Rightarrow> model_based_opt" where
  "add_constraint coeffs c ty mbo =
     mbo\<lparr>m_rows := m_rows mbo @ [\<lparr>m_vars = coeffs, r_coeff = c, m_type = ty, m_mod = 0\<rparr>]\<rparr>"

text \<open>Modelled from the spec: \<^verbatim>\<open>add_divides(coeffs, c, m)\<close> adds the row
  \<open>\<Sum> c\<^sub>i x\<^sub>i + c \<equiv> 0 (mod m)\<close>.\<close>

definition add_divides :: "var list \<Rightarrow> rat \<Rightarrow> rat \<Rightarrow> model_based_opt \<Rightarrow> model_based_opt" where
  "add_divides coeffs c m mbo =
     mbo\<lparr>m_rows := m_rows mbo @ [\<lparr>m_vars = coeffs, r_coeff = c, m_type = t_mod, m_mod = m\<rparr>]\<rparr>"

text \<open>Modelled from the spec: \<^verbatim>\<open>set_objective(coeffs, c)\<close> records the objective
  \<open>\<Sum> c\<^sub>i x\<^sub>i + c\<close>.\<close>

definition set_objective :: "var list \<Rightarrow> rat \<Rightarrow> model_based_opt \<Rightarrow> model_based_opt" where
  "set_objective coeffs c mbo = mbo\<lparr>m_objective := Some (coeffs, c)\<rparr>"

section \<open>Maps keyed by terms\<close>

text \<open>\<^verbatim>\<open>obj_map\<close> is a hash table keyed by terms. It is an association list with one
  entry per key; the table is walked in the order of first insertion.\<close>

fun obj_insert :: "'k \<Rightarrow> 'v \<Rightarrow> ('k \<times> 'v) list \<Rightarrow> ('k \<times> 'v) list" where
  "obj_insert k v [] = [(k, v)]"
| "obj_insert k v ((k', v') # m) =
     (if k = k' then (k, v) # m else (k', v') # obj_insert k v m)"

definition insert_mul :: "expr \<Rightarrow> rat \<Rightarrow> (expr \<times> rat) list \<Rightarrow> (expr \<times> rat) list" where
  "insert_mul x v ts =
     (case map_of ts x of
        Some w \<Rightarrow> obj_insert x (w + v) ts
      | None \<Rightarrow> obj_insert x v ts)"

section \<open>The linearizer\<close>

text \<open>The state that \<^verbatim>\<open>linearize\<close> and \<^verbatim>\<open>extract_coefficients\<close> share by reference: the
  engine, the literal vector \<^verbatim>\<open>fmls\<close> and the map \<^verbatim>\<open>tids\<close> from terms to engine ids.\<close>

record ctx =
  mbo :: model_based_opt
  fmls :: "expr list"
  tids :: "(expr \<times> nat) list"

fun is_numeral :: "expr \<Rightarrow> rat option" where
  "is_numeral (ENum r i) = Some r"
| "is_numeral (EUminus t1) =
     (case is_numeral t1 of Some r \<Rightarrow> Some (- r) | None \<Rightarrow> None)"
| "is_numeral (EMul args) =
     fold (\<lambda>a acc. case acc of None \<Rightarrow> None
                    | Some r \<Rightarrow> (case is_numeral a of None \<Rightarrow> None | Some r1 \<Rightarrow> Some (r * r1)))
          args (Some 1)"
| "is_numeral (EAdd args) =
     fold (\<lambda>a acc. case acc of None \<Rightarrow> None
                    | Some r \<Rightarrow> (case is_numeral a of None \<Rightarrow> None | Some r1 \<Rightarrow> Some (r + r1)))
          args (Some 0)"
| "is_numeral (ESub t1 t2) =
     (case is_numeral t1 of
        None \<Rightarrow> None
      | Some r1 \<Rightarrow> (case is_numeral t2 of None \<Rightarrow> None | Some r2 \<Rightarrow> Some (r1 - r2)))"
| "is_numeral t = None"

text \<open>One step of the loop of \<^verbatim>\<open>extract_coefficients\<close>: the term is registered with
  the engine when \<^verbatim>\<open>tids\<close> does not know it, and its entry is pushed unless the
  coefficient is zero.\<close>

definition extract_step :: "model \<Rightarrow> expr \<times> rat \<Rightarrow> var list \<times> ctx \<Rightarrow> var list \<times> ctx" where
  "extract_step M e cs =
     (let v = fst e; q = snd e; coeffs = fst cs; s = snd cs;
          (vid, s1) =
            (case map_of (tids s) v of
               Some n \<Rightarrow> (n, s)
             | None \<Rightarrow>
                 (let r = num (eval M v);
                      (n, mbo1) = add_var r (is_int v) (mbo s)
                  in (n, s\<lparr>mbo := mbo1, tids := obj_insert v n (tids s)\<rparr>)))
      in (if q \<noteq> 0 then coeffs @ [\<lparr>m_id = vid, m_coeff = q\<rparr>] else coeffs, s1))"

definition extract_coefficients :: "model \<Rightarrow> (expr \<times> rat) list \<Rightarrow> ctx \<Rightarrow> var list \<times> ctx" where
  "extract_coefficients M ts s = fold (extract_step M) ts ([], s)"

text \<open>\<^verbatim>\<open>linearize\<close> on a term, with multiplier \<^verbatim>\<open>mul\<close>. The accumulator \<^verbatim>\<open>ts\<close>, the
  constant \<^verbatim>\<open>c\<close> and the shared state are passed in and returned.\<close>

type_synonym lin = "(expr \<times> rat) list \<times> rat \<times> ctx"

fun linearize_term :: "model \<Rightarrow> rat \<Rightarrow> expr \<Rightarrow> lin \<Rightarrow> lin" where
  "linearize_term M mul (EMul [t1, t2]) (ts, c, s) =
     (case is_numeral t1 of
        Some mul1 \<Rightarrow> linearize_term M (mul * mul1) t2 (ts, c, s)
      | None \<Rightarrow>
          (case is_numeral t2 of
             Some mul1 \<Rightarrow> linearize_term M (mul * mul1) t1 (ts, c, s)
           | None \<Rightarrow> (insert_mul (EMul [t1, t2]) mul ts, c, s)))"
| "linearize_term M mul (EAdd args) (ts, c, s) =
     fold (\<lambda>a st. linearize_term M mul a st) args (ts, c, s)"
| "linearize_term M mul (ESub t1 t2) (ts, c, s) =
     linearize_term M (- mul) t2 (linearize_term M mul t1 (ts, c, s))"
| "linearize_term M mul (EUminus t1) (ts, c, s) =
     linearize_term M (- mul) t1 (ts, c, s)"
| "linearize_term M mul (ENum mul1 i) (ts, c, s) = (ts, c + mul * mul1, s)"
| "linearize_term M mul (EIte t1 t2 t3) (ts, c, s) =
     (if is_true (eval M t1) then
        (case linearize_term M mul t2 (ts, c, s) of
           (ts', c', s') \<Rightarrow> (ts', c', s'\<lparr>fmls := fmls s' @ [t1]\<rparr>))
      else
        linearize_term M mul t3 (ts, c, s\<lparr>fmls := fmls s @ [mk_not t1]\<rparr>))"
| "linearize_term M mul (EMod t1 t2) (ts, c, s) =
     (case is_numeral t2 of
        Some mul1 \<Rightarrow>
          (let r = num (eval M (EMod t1 t2)) in
           case linearize_term M 1 t1 ([], - r, s) of
             (ts0, c0, s0) \<Rightarrow>
               (case extract_coefficients M ts0 s0 of
                  (coeffs, s1) \<Rightarrow>
                    (ts, c + mul * r, s1\<lparr>mbo := add_divides coeffs c0 mul1 (mbo s1)\<rparr>)))
      | None \<Rightarrow> (insert_mul (EMod t1 t2) mul ts, c, s))"
| "linearize_term M mul t (ts, c, s) = (insert_mul t mul ts, c, s)"

text \<open>The tail of \<^verbatim>\<open>linearize\<close> on a literal: the accumulated combination is turned
  into a coefficient vector and submitted as one row.\<close>

definition add_row :: "model \<Rightarrow> ineq_type \<Rightarrow> lin \<Rightarrow> bool \<times> ctx" where
  "add_row M ty l =
     (case l of (ts, c, s) \<Rightarrow>
        (case extract_coefficients M ts s of
           (coeffs, s1) \<Rightarrow> (True, s1\<lparr>mbo := add_constraint coeffs c ty (mbo s1)\<rparr>)))"

text \<open>The pair of calls every comparison makes: \<^verbatim>\<open>e1\<close> with \<^verbatim>\<open>mul\<close>, then \<^verbatim>\<open>e2\<close> with
  \<^verbatim>\<open>-mul\<close>, into a fresh accumulator.\<close>

definition lin_diff :: "model \<Rightarrow> rat \<Rightarrow> expr \<Rightarrow> expr \<Rightarrow> ctx \<Rightarrow> lin" where
  "lin_diff M mul e1 e2 s = linearize_term M (- mul) e2 (linearize_term M mul e1 ([], 0, s))"

text \<open>The loop of the negated \<^verbatim>\<open>distinct\<close> branch: the first argument whose value was
  seen before, with the argument that had that value.\<close>

fun find_eq :: "model \<Rightarrow> expr list \<Rightarrow> (rat \<times> expr) list \<Rightarrow> (expr \<times> expr) option" where
  "find_eq M [] vals = None"
| "find_eq M (arg1 # rest) vals =
     (let r = num (eval M arg1) in
      case map_of vals r of
        Some arg2 \<Rightarrow> Some (arg1, arg2)
      | None \<Rightarrow> find_eq M rest (obj_insert r arg1 vals))"

text \<open>\<^verbatim>\<open>std::sort\<close> with \<^verbatim>\<open>compare_second\<close>: ascending by the second component. The
  order of entries with equal values is not fixed by \<^verbatim>\<open>std::sort\<close>; the model keeps
  their order.\<close>

definition sort_nums :: "(expr \<times> rat) list \<Rightarrow> (expr \<times> rat) list" where
  "sort_nums nums = sort_key snd nums"

definition is_distinct :: "expr \<Rightarrow> bool" where
  "is_distinct e = (case e of EDistinct args \<Rightarrow> True | _ \<Rightarrow> False)"

text \<open>\<^verbatim>\<open>linearize\<close> on a literal. The result is the flag of the source (true: consumed
  into rows, false: residue) and the shared state. The source reads argument 0 of a
  \<^verbatim>\<open>distinct\<close> without a check; the host builds no \<^verbatim>\<open>distinct\<close> without arguments, and
  the model leaves one as residue.\<close>

function linearize_lit :: "model \<Rightarrow> expr \<Rightarrow> ctx \<Rightarrow> bool \<times> ctx" where
  "linearize_lit M lit0 s =
     (let is_not = (case lit0 of ENot l \<Rightarrow> True | _ \<Rightarrow> False);
          lit = (case lit0 of ENot l \<Rightarrow> l | _ \<Rightarrow> lit0);
          mul = (if is_not then - 1 else 1)
      in case lit of
           ELe e1 e2 \<Rightarrow> add_row M (if is_not then t_lt else t_le) (lin_diff M mul e1 e2 s)
         | EGe e2 e1 \<Rightarrow> add_row M (if is_not then t_lt else t_le) (lin_diff M mul e1 e2 s)
         | ELt e1 e2 \<Rightarrow> add_row M (if is_not then t_le else t_lt) (lin_diff M mul e1 e2 s)
         | EGt e2 e1 \<Rightarrow> add_row M (if is_not then t_le else t_lt) (lin_diff M mul e1 e2 s)
         | EEq e1 e2 \<Rightarrow>
             (if \<not> is_not \<and> is_arith e1 then add_row M t_eq (lin_diff M mul e1 e2 s)
              else if is_not \<and> is_arith e1 then
                (let r1 = num (eval M e1); r2 = num (eval M e2) in
                 if r1 < r2 then add_row M t_lt (lin_diff M mul e2 e1 s)
                 else add_row M t_lt (lin_diff M mul e1 e2 s))
              else (False, s))
         | EDistinct args \<Rightarrow>
             (case args of
                [] \<Rightarrow> (False, s)
              | arg0 # _ \<Rightarrow>
                  (if \<not> is_not \<and> is_arith arg0 then
                     (let nums = sort_nums (map (\<lambda>a. (a, num (eval M a))) args) in
                      fold (\<lambda>p st. if fst st
                                     then linearize_lit M (ELt (fst p) (snd p)) (snd st)
                                     else st)
                           (zip (map fst nums) (tl (map fst nums))) (True, s))
                   else if is_not \<and> is_arith arg0 then
                     (case find_eq M args [] of
                        Some (arg1, arg2) \<Rightarrow> add_row M t_eq (lin_diff M mul arg1 arg2 s)
                      | None \<Rightarrow> add_row M t_le ([], 0, s))
                   else (False, s)))
         | _ \<Rightarrow> (False, s))"
  by pat_completeness auto
termination
  by (relation "measure (\<lambda>(M, lit0, s). if is_distinct lit0 then 1 else 0)")
     (auto simp: is_distinct_def split: expr.splits)

declare linearize_lit.simps [simp del]

section \<open>The loops over the literal vector\<close>

text \<open>A weight on terms under which the literals a call of \<^verbatim>\<open>linearize\<close> pushes weigh
  less than the literal it was called on; the loops over the growing vector \<^verbatim>\<open>fmls\<close>
  end by it. An argument of \<^verbatim>\<open>distinct\<close> counts twice, as it is linearized in two
  inequalities.\<close>

fun wt :: "expr \<Rightarrow> nat" where
  "wt (ENum r i) = 1"
| "wt (EApp f s args) = 1 + sum_list (map wt args)"
| "wt (EAdd args) = 1 + sum_list (map wt args)"
| "wt (EMul args) = 1 + sum_list (map wt args)"
| "wt (ESub a b) = 1 + wt a + wt b"
| "wt (EUminus a) = 1 + wt a"
| "wt (EMod a b) = 1 + wt a + wt b"
| "wt (EIte g a b) = 2 + wt g + wt a + wt b"
| "wt (ELe a b) = 1 + wt a + wt b"
| "wt (EGe a b) = 1 + wt a + wt b"
| "wt (ELt a b) = 1 + wt a + wt b"
| "wt (EGt a b) = 1 + wt a + wt b"
| "wt (EEq a b) = 1 + wt a + wt b"
| "wt (EDistinct args) = 1 + 2 * sum_list (map wt args)"
| "wt (ENot a) = 1 + wt a"
| "wt ETrue = 1"
| "wt EFalse = 1"

definition pushed :: "ctx \<Rightarrow> ctx \<Rightarrow> nat \<Rightarrow> bool" where
  "pushed s s' n = (\<exists>gs. fmls s' = fmls s @ gs \<and> sum_list (map wt gs) \<le> n)"

lemma wt_pos: "0 < wt e" by (cases e) simp_all

lemma pushed_refl: "pushed s s n" by (simp add: pushed_def)

lemma pushed_trans: "pushed s s' n \<Longrightarrow> pushed s' s'' m \<Longrightarrow> pushed s s'' (n + m)"
  by (auto simp: pushed_def)

lemma pushed_mono: "pushed s s' n \<Longrightarrow> n \<le> m \<Longrightarrow> pushed s s' m"
  by (auto simp: pushed_def)

lemma pushed_eq_fmls: "fmls s'' = fmls s' \<Longrightarrow> pushed s s' n \<Longrightarrow> pushed s s'' n"
  by (simp add: pushed_def)

lemma extract_step_fmls: "fmls (snd (extract_step M e cs)) = fmls (snd cs)"
  by (auto simp: extract_step_def Let_def add_var_def split: option.splits prod.splits)

lemma extract_coefficients_fmls: "fmls (snd (extract_coefficients M ts s)) = fmls s"
proof -
  have "fmls (snd (fold (extract_step M) ts cs)) = fmls (snd cs)" for cs
    by (induction ts arbitrary: cs) (simp_all add: extract_step_fmls)
  then show ?thesis by (simp add: extract_coefficients_def)
qed

abbreviation lctx :: "lin \<Rightarrow> ctx" where "lctx l \<equiv> snd (snd l)"

lemma fold_pushed:
  assumes "\<And>x st. x \<in> set args \<Longrightarrow> pushed (lctx st) (lctx (f x st)) (wt x - 1)"
  shows "pushed (lctx st) (lctx (fold f args st)) (sum_list (map wt args))"
  using assms
proof (induction args arbitrary: st)
  case Nil
  then show ?case by (simp add: pushed_refl)
next
  case (Cons a args)
  have 1: "pushed (lctx st) (lctx (f a st)) (wt a - 1)" using Cons.prems by simp
  have 2: "pushed (lctx (f a st)) (lctx (fold f args (f a st))) (sum_list (map wt args))"
    using Cons.IH Cons.prems by simp
  show ?case using pushed_mono [OF pushed_trans [OF 1 2]] by simp
qed

lemma linearize_term_pushed:
  "pushed (lctx l) (lctx (linearize_term M mul t l)) (wt t - 1)"
proof (induction M mul t l rule: linearize_term.induct)
  case (1 M mul t1 t2 ts c s)
  then show ?case
    by (auto split: option.splits intro: pushed_refl elim!: pushed_mono)
next
  case (2 M mul args ts c s)
  show ?case using fold_pushed [of args "linearize_term M mul" "(ts, c, s)"] 2 by simp
next
  case (3 M mul t1 t2 ts c s)
  show ?case using pushed_trans [OF 3(1) 3(2)] wt_pos [of t1] wt_pos [of t2]
    by (auto elim!: pushed_mono)
next
  case (4 M mul t1 ts c s)
  then show ?case by (auto elim!: pushed_mono)
next
  case (6 M mul t1 t2 t3 ts c s)
  show ?case
  proof (cases "is_true (eval M t1)")
    case True
    obtain ts' c' s' where r: "linearize_term M mul t2 (ts, c, s) = (ts', c', s')"
      by (cases "linearize_term M mul t2 (ts, c, s)") auto
    from 6(1) [OF True] r have "pushed s s' (wt t2 - 1)" by simp
    then have "pushed s (s'\<lparr>fmls := fmls s' @ [t1]\<rparr>) (wt t2 - 1 + wt t1)"
      by (auto simp: pushed_def)
    then show ?thesis using True r by (auto elim!: pushed_mono)
  next
    case False
    have "pushed s (s\<lparr>fmls := fmls s @ [mk_not t1]\<rparr>) (1 + wt t1)"
      by (simp add: pushed_def mk_not_def)
    from pushed_trans [OF this] 6(2) [OF False]
    have "pushed s (lctx (linearize_term M mul t3 (ts, c, s\<lparr>fmls := fmls s @ [mk_not t1]\<rparr>)))
            (1 + wt t1 + (wt t3 - 1))" by simp
    then show ?thesis using False wt_pos [of t3] by (auto elim!: pushed_mono)
  qed
next
  case (7 M mul t1 t2 ts c s)
  show ?case
  proof (cases "is_numeral t2")
    case None
    then show ?thesis by (simp add: pushed_refl)
  next
    case (Some k)
    define r where "r = num (eval M (EMod t1 t2))"
    obtain ts0 c0 s0 where l: "linearize_term M 1 t1 ([], - r, s) = (ts0, c0, s0)"
      by (cases "linearize_term M 1 t1 ([], - r, s)") auto
    obtain coeffs s1 where e: "extract_coefficients M ts0 s0 = (coeffs, s1)"
      by (cases "extract_coefficients M ts0 s0") auto
    from 7 [OF Some r_def] l have "pushed s s0 (wt t1 - 1)" by simp
    moreover have "fmls s1 = fmls s0" using extract_coefficients_fmls [of M ts0 s0] e by simp
    ultimately have "pushed s (s1\<lparr>mbo := add_divides coeffs c0 k (mbo s1)\<rparr>) (wt t1 - 1)"
      by (simp add: pushed_def)
    then show ?thesis using Some l e r_def [symmetric]
      by (auto simp del: eval.simps elim!: pushed_mono)
  qed
qed (simp_all add: pushed_refl)

text \<open>The equations of \<^verbatim>\<open>linearize\<close> on a literal, one per shape of the literal.\<close>

lemma linearize_lit_cases:
  "linearize_lit M (ELe e1 e2) s = add_row M t_le (lin_diff M 1 e1 e2 s)"
  "linearize_lit M (EGe e2 e1) s = add_row M t_le (lin_diff M 1 e1 e2 s)"
  "linearize_lit M (ELt e1 e2) s = add_row M t_lt (lin_diff M 1 e1 e2 s)"
  "linearize_lit M (EGt e2 e1) s = add_row M t_lt (lin_diff M 1 e1 e2 s)"
  "linearize_lit M (ENot (ELe e1 e2)) s = add_row M t_lt (lin_diff M (- 1) e1 e2 s)"
  "linearize_lit M (ENot (EGe e2 e1)) s = add_row M t_lt (lin_diff M (- 1) e1 e2 s)"
  "linearize_lit M (ENot (ELt e1 e2)) s = add_row M t_le (lin_diff M (- 1) e1 e2 s)"
  "linearize_lit M (ENot (EGt e2 e1)) s = add_row M t_le (lin_diff M (- 1) e1 e2 s)"
  by (simp_all add: linearize_lit.simps)

lemma linearize_lit_eq:
  "linearize_lit M (EEq e1 e2) s =
     (if is_arith e1 then add_row M t_eq (lin_diff M 1 e1 e2 s) else (False, s))"
  by (simp add: linearize_lit.simps)

lemma linearize_lit_neq:
  "linearize_lit M (ENot (EEq e1 e2)) s =
     (if is_arith e1 then
        (if num (eval M e1) < num (eval M e2) then add_row M t_lt (lin_diff M (- 1) e2 e1 s)
         else add_row M t_lt (lin_diff M (- 1) e1 e2 s))
      else (False, s))"
  by (simp add: linearize_lit.simps Let_def)

definition lt_step :: "model \<Rightarrow> expr \<times> expr \<Rightarrow> bool \<times> ctx \<Rightarrow> bool \<times> ctx" where
  "lt_step M p st = (if fst st then add_row M t_lt (lin_diff M 1 (fst p) (snd p) (snd st)) else st)"

lemma linearize_lit_distinct:
  "linearize_lit M (EDistinct args) s =
     (case args of [] \<Rightarrow> (False, s)
      | arg0 # _ \<Rightarrow>
         if is_arith arg0 then
           (let nums = sort_nums (map (\<lambda>a. (a, num (eval M a))) args) in
            fold (lt_step M) (zip (map fst nums) (tl (map fst nums))) (True, s))
         else (False, s))"
  by (simp add: linearize_lit.simps [of M "EDistinct args"] linearize_lit_cases lt_step_def [abs_def] Let_def
        split: list.splits cong: if_cong)

lemma linearize_lit_not_distinct:
  "linearize_lit M (ENot (EDistinct args)) s =
     (case args of [] \<Rightarrow> (False, s)
      | arg0 # _ \<Rightarrow>
         if is_arith arg0 then
           (case find_eq M args [] of
              Some (arg1, arg2) \<Rightarrow> add_row M t_eq (lin_diff M (- 1) arg1 arg2 s)
            | None \<Rightarrow> add_row M t_le ([], 0, s))
         else (False, s))"
  by (simp add: linearize_lit.simps [of M "ENot (EDistinct args)"] split: list.splits)

definition is_cmp :: "expr \<Rightarrow> bool" where
  "is_cmp e = (case e of ELe a b \<Rightarrow> True | EGe a b \<Rightarrow> True | ELt a b \<Rightarrow> True | EGt a b \<Rightarrow> True
               | EEq a b \<Rightarrow> True | EDistinct args \<Rightarrow> True | _ \<Rightarrow> False)"

lemma linearize_lit_other:
  "\<not> is_cmp lit \<Longrightarrow> (\<forall>l. lit = ENot l \<longrightarrow> \<not> is_cmp l) \<Longrightarrow> linearize_lit M lit s = (False, s)"
  by (cases lit; simp add: linearize_lit.simps is_cmp_def split: expr.splits)

lemma add_row_fmls: "fmls (snd (add_row M ty (ts, c, s))) = fmls s"
  using extract_coefficients_fmls [of M ts s]
  by (auto simp: add_row_def split: prod.splits)

lemma add_row_pushed: "pushed s (lctx l) n \<Longrightarrow> pushed s (snd (add_row M ty l)) n"
  using add_row_fmls [of M ty "fst l" "fst (snd l)" "lctx l"]
  by (simp add: pushed_def)

lemma lin_diff_pushed: "pushed s (lctx (lin_diff M mul e1 e2 s)) (wt e1 - 1 + (wt e2 - 1))"
  unfolding lin_diff_def
  using pushed_trans [OF linearize_term_pushed [of "([], 0, s)" M mul e1]
      linearize_term_pushed [of "linearize_term M mul e1 ([], 0, s)" M "- mul" e2]]
  by simp

lemma add_row_lin_diff_pushed:
  "wt e1 + wt e2 \<le> Suc n \<Longrightarrow> pushed s (snd (add_row M ty (lin_diff M mul e1 e2 s))) n"
  by (rule add_row_pushed, rule pushed_mono [OF lin_diff_pushed]) simp

lemma fold_lt_step_pushed:
  "pushed (snd st) (snd (fold (lt_step M) ps st)) (sum_list (map (\<lambda>p. wt (fst p) + wt (snd p)) ps))"
proof (induction ps arbitrary: st)
  case Nil
  show ?case by (simp add: pushed_refl)
next
  case (Cons p ps)
  have 1: "pushed (snd st) (snd (lt_step M p st)) (wt (fst p) + wt (snd p))"
    by (auto simp: lt_step_def pushed_refl intro!: add_row_lin_diff_pushed)
  show ?case using pushed_trans [OF 1 Cons.IH [of "lt_step M p st"]] by simp
qed

lemma sum_pairs_le:
  "xs \<noteq> [] \<Longrightarrow>
   sum_list (map (\<lambda>p. wt (fst p) + wt (snd p)) (zip xs (tl xs))) + wt (hd xs) \<le> 2 * sum_list (map wt xs)"
proof (induction xs)
  case Nil
  then show ?case by simp
next
  case (Cons a xs)
  show ?case
  proof (cases xs)
    case Nil
    then show ?thesis by simp
  next
    case (Cons b ys)
    with Cons.IH show ?thesis by auto
  qed
qed

lemma sum_insort_key: "sum_list (map g (insort_key f x xs)) = g x + sum_list (map (g::_ \<Rightarrow> nat) xs)"
  by (induction xs) auto

lemma sum_sort_key: "sum_list (map g (sort_key f xs)) = sum_list (map (g::_ \<Rightarrow> nat) xs)"
  by (induction xs) (auto simp: sum_insort_key)

lemma sum_sort_nums:
  "sum_list (map wt (map fst (sort_nums (map (\<lambda>a. (a, f a)) args)))) = sum_list (map wt args)"
  by (simp add: sort_nums_def sum_sort_key [of "\<lambda>p. wt (fst p)"] comp_def)

lemma wt_le_sum: "a \<in> set xs \<Longrightarrow> wt a \<le> sum_list (map wt xs)"
  by (induction xs) auto

lemma map_of_obj_insert: "map_of (obj_insert k v m) = (map_of m)(k \<mapsto> v)"
  by (induction m) auto

lemma find_eq_mem:
  "find_eq M xs vals = Some (a, b) \<Longrightarrow> a \<in> set xs \<and> (b \<in> set xs \<or> b \<in> ran (map_of vals))"
proof (induction xs arbitrary: vals)
  case Nil
  then show ?case by simp
next
  case (Cons x xs)
  show ?case
  proof (cases "map_of vals (num (eval M x))")
    case None
    with Cons.prems have "find_eq M xs (obj_insert (num (eval M x)) x vals) = Some (a, b)"
      by (simp add: Let_def)
    from Cons.IH [OF this] show ?thesis
      using None by (auto simp: map_of_obj_insert ran_def split: if_splits)
  next
    case (Some y)
    with Cons.prems show ?thesis by (auto simp: Let_def ran_def)
  qed
qed

lemma linearize_lit_pushed: "pushed s (snd (linearize_lit M lit s)) (wt lit - 1)"
proof -
  have distinct_case: "pushed s (snd (linearize_lit M (EDistinct args) s)) (wt (EDistinct args) - 1)" for args
  proof (cases "args = [] \<or> \<not> is_arith (hd args)")
    case True
    then show ?thesis by (auto simp: linearize_lit_distinct pushed_refl split: list.splits)
  next
    case False
    define xs where "xs = map fst (sort_nums (map (\<lambda>a. (a, num (eval M a))) args))"
    have s: "sum_list (map wt xs) = sum_list (map wt args)"
      unfolding xs_def by (rule sum_sort_nums)
    have "length xs = length args" by (simp add: xs_def sort_nums_def)
    then have "xs \<noteq> []" using False by auto
    then have "pushed s (snd (fold (lt_step M) (zip xs (tl xs)) (True, s))) (2 * sum_list (map wt xs))"
      using fold_lt_step_pushed [of "(True, s)" M "zip xs (tl xs)"] sum_pairs_le [of xs]
      by (auto elim!: pushed_mono)
    moreover have "linearize_lit M (EDistinct args) s = fold (lt_step M) (zip xs (tl xs)) (True, s)"
      using False by (cases args) (simp_all add: linearize_lit_distinct Let_def xs_def)
    ultimately show ?thesis using s by simp
  qed
  have ndistinct_case: "pushed s (snd (linearize_lit M (ENot (EDistinct args)) s)) (wt (ENot (EDistinct args)) - 1)" for args
  proof (cases "find_eq M args []")
    case None
    then show ?thesis
      using add_row_pushed [of s "([], 0, s)" 0 M t_le]
      by (auto simp: linearize_lit_not_distinct pushed_refl split: list.splits elim!: pushed_mono)
  next
    case (Some p)
    obtain a b where p: "p = (a, b)" by (cases p)
    from find_eq_mem [of M args "[]" a b] Some p have "a \<in> set args" "b \<in> set args" by auto
    then have "wt a + wt b \<le> 2 * sum_list (map wt args)"
      using wt_le_sum [of a args] wt_le_sum [of b args] by simp
    then have "pushed s (snd (add_row M t_eq (lin_diff M (- 1) a b s))) (Suc (2 * sum_list (map wt args)))"
      by (intro add_row_lin_diff_pushed) simp
    then show ?thesis using Some p
      by (auto simp: linearize_lit_not_distinct pushed_refl split: list.splits)
  qed
  show ?thesis
  proof (cases "is_cmp lit \<or> (\<exists>l. lit = ENot l \<and> is_cmp l)")
    case False
    then show ?thesis using linearize_lit_other [of lit M s] by (simp add: pushed_refl)
  next
    case True
    then show ?thesis
    proof
      assume "is_cmp lit"
      then show ?thesis using distinct_case
        by (cases lit) (auto simp: is_cmp_def linearize_lit_cases linearize_lit_eq pushed_refl
            intro!: add_row_lin_diff_pushed)
    next
      assume "\<exists>l. lit = ENot l \<and> is_cmp l"
      then obtain l where l: "lit = ENot l" "is_cmp l" by blast
      then show ?thesis using ndistinct_case
        by (cases l) (auto simp: is_cmp_def linearize_lit_cases linearize_lit_neq pushed_refl
            intro!: add_row_lin_diff_pushed)
    qed
  qed
qed

lemma lin_step_decr:
  assumes "i < length (fmls s)" "linearize_lit M (fmls s ! i) s = (b, s')"
  shows "sum_list (map wt (drop (Suc i) (fmls s'))) < sum_list (map wt (drop i (fmls s)))"
    and "j \<le> i \<Longrightarrow> sum_list (map wt (drop (Suc i) ((fmls s')[j := x]))) < sum_list (map wt (drop i (fmls s)))"
proof -
  from linearize_lit_pushed [of s M "fmls s ! i"] assms(2)
  obtain gs where gs: "fmls s' = fmls s @ gs" "sum_list (map wt gs) \<le> wt (fmls s ! i) - 1"
    by (auto simp: pushed_def)
  have d: "drop i (fmls s) = fmls s ! i # drop (Suc i) (fmls s)"
    using assms(1) by (simp add: Cons_nth_drop_Suc)
  show "sum_list (map wt (drop (Suc i) (fmls s'))) < sum_list (map wt (drop i (fmls s)))"
    using assms(1) gs d wt_pos [of "fmls s ! i"] by auto
  then show "j \<le> i \<Longrightarrow> sum_list (map wt (drop (Suc i) ((fmls s')[j := x]))) < sum_list (map wt (drop i (fmls s)))"
    by (simp add: drop_update_cancel)
qed

text \<open>The first loop of the projection entry point: \<^verbatim>\<open>i\<close> walks the vector \<^verbatim>\<open>fmls\<close>,
  which grows while it is walked, and \<^verbatim>\<open>j\<close> counts the residue literals, which are
  moved to the front. \<^verbatim>\<open>j\<close> never exceeds \<^verbatim>\<open>i\<close>; the loop condition of the model says
  so, for the termination argument. The result is \<^verbatim>\<open>j\<close> and the state.\<close>

function lin_loop :: "model \<Rightarrow> nat \<Rightarrow> nat \<Rightarrow> ctx \<Rightarrow> nat \<times> ctx" where
  "lin_loop M i j s =
     (if i < length (fmls s) \<and> j \<le> i then
        (case linearize_lit M (fmls s ! i) s of
           (consumed, s') \<Rightarrow>
             if \<not> consumed then
               lin_loop M (i + 1) (j + 1)
                 (if i \<noteq> j then s'\<lparr>fmls := (fmls s')[j := fmls s' ! i]\<rparr> else s')
             else lin_loop M (i + 1) j s')
      else (j, s))"
  by pat_completeness auto
termination
  by (relation "measure (\<lambda>(M, i, j, s). sum_list (map wt (drop i (fmls s))))")
     (auto simp: lin_step_decr dest: sym)

text \<open>The loop of \<^verbatim>\<open>maximize\<close> over the growing vector \<^verbatim>\<open>fmls\<close>.\<close>

function max_loop :: "model \<Rightarrow> nat \<Rightarrow> ctx \<Rightarrow> ctx" where
  "max_loop M i s =
     (if i < length (fmls s) then max_loop M (i + 1) (snd (linearize_lit M (fmls s ! i) s))
      else s)"
  by pat_completeness auto
termination
  by (relation "measure (\<lambda>(M, i, s). sum_list (map wt (drop i (fmls s))))")
     (auto intro: lin_step_decr(1) [OF _ prod.collapse [symmetric]])

declare lin_loop.simps [simp del] max_loop.simps [simp del]

lemma lin_loop_stop: "\<not> (i < length (fmls s) \<and> j \<le> i) \<Longrightarrow> lin_loop M i j s = (j, s)"
  by (subst lin_loop.simps) auto

lemma lin_loop_step:
  "i < length (fmls s) \<Longrightarrow> j \<le> i \<Longrightarrow> linearize_lit M (fmls s ! i) s = (b, s') \<Longrightarrow>
   lin_loop M i j s =
     (if \<not> b then lin_loop M (i + 1) (j + 1)
                   (if i \<noteq> j then s'\<lparr>fmls := (fmls s')[j := fmls s' ! i]\<rparr> else s')
      else lin_loop M (i + 1) j s')"
  by (subst lin_loop.simps) simp

lemma max_loop_stop: "\<not> i < length (fmls s) \<Longrightarrow> max_loop M i s = s"
  by (subst max_loop.simps) simp

lemma max_loop_step:
  "i < length (fmls s) \<Longrightarrow> max_loop M i s = max_loop M (i + 1) (snd (linearize_lit M (fmls s ! i) s))"
  by (subst max_loop.simps) simp

section \<open>The projection driver\<close>

text \<open>\<^verbatim>\<open>expr_mark\<close> is a set of marked terms, declared outside this file. Its method
  \<^verbatim>\<open>mark\<close> marks the one term it is given; the function \<^verbatim>\<open>mark_rec\<close> marks a term and
  every sub-term of it.\<close>

fun subterms :: "expr \<Rightarrow> expr list" where
  "subterms (EApp f s args) = EApp f s args # concat (map subterms args)"
| "subterms (EAdd args) = EAdd args # concat (map subterms args)"
| "subterms (EMul args) = EMul args # concat (map subterms args)"
| "subterms (ESub a b) = ESub a b # subterms a @ subterms b"
| "subterms (EUminus a) = EUminus a # subterms a"
| "subterms (EMod a b) = EMod a b # subterms a @ subterms b"
| "subterms (EIte g a b) = EIte g a b # subterms g @ subterms a @ subterms b"
| "subterms (ELe a b) = ELe a b # subterms a @ subterms b"
| "subterms (EGe a b) = EGe a b # subterms a @ subterms b"
| "subterms (ELt a b) = ELt a b # subterms a @ subterms b"
| "subterms (EGt a b) = EGt a b # subterms a @ subterms b"
| "subterms (EEq a b) = EEq a b # subterms a @ subterms b"
| "subterms (EDistinct args) = EDistinct args # concat (map subterms args)"
| "subterms (ENot a) = ENot a # subterms a"
| "subterms e = [e]"

type_synonym expr_mark = "expr list"

definition mark :: "expr \<Rightarrow> expr_mark \<Rightarrow> expr_mark" where
  "mark e m = e # m"

definition is_marked :: "expr_mark \<Rightarrow> expr \<Rightarrow> bool" where
  "is_marked m e = (e \<in> set m)"

definition mark_rec :: "expr_mark \<Rightarrow> expr \<Rightarrow> expr_mark" where
  "mark_rec m e = subterms e @ m"

text \<open>The loop over \<^verbatim>\<open>vars\<close> that registers every arithmetic variable the literals did
  not mention.\<close>

definition register_var :: "model \<Rightarrow> expr \<Rightarrow> ctx \<Rightarrow> ctx" where
  "register_var M v s =
     (if is_arith v \<and> map_of (tids s) v = None then
        (let r = num (eval M v);
             (n, mbo1) = add_var r (is_int v) (mbo s)
         in s\<lparr>mbo := mbo1, tids := obj_insert v n (tids s)\<rparr>)
      else s)"

text \<open>\<^verbatim>\<open>ptr_vector::setx(idx, elem, 0)\<close> grows the vector with null entries up to
  \<^verbatim>\<open>idx\<close> and stores the element there. A read of \<^verbatim>\<open>index2expr\<close> beyond its size, or
  of a null entry, has no result.\<close>

definition setx :: "nat \<Rightarrow> 'a \<Rightarrow> 'a option list \<Rightarrow> 'a option list" where
  "setx i e xs =
     (if i < length xs then xs[i := Some e]
      else xs @ replicate (i - length xs) None @ [Some e])"

definition index2expr_of :: "(expr \<times> nat) list \<Rightarrow> expr option list" where
  "index2expr_of ti = fold (\<lambda>p xs. setx (snd p) (fst p) xs) ti []"

definition ix :: "'a option list \<Rightarrow> nat \<Rightarrow> 'a option" where
  "ix xs i = (if i < length xs then xs ! i else None)"

text \<open>The general case of lifting builds one term per variable of the row.\<close>

fun lift_vars :: "expr option list \<Rightarrow> var list \<Rightarrow> expr list option" where
  "lift_vars index2expr [] = Some []"
| "lift_vars index2expr (v # vs) =
     (case ix index2expr (m_id v) of
        None \<Rightarrow> None
      | Some t0 \<Rightarrow>
          (case lift_vars index2expr vs of
             None \<Rightarrow> None
           | Some ts \<Rightarrow>
               Some ((if m_coeff v \<noteq> 1 then EMul [ENum (m_coeff v) (is_int t0), t0] else t0) # ts)))"

text \<open>The body of the loop over the live rows: the literals it pushes for one row (none
  or one). In the first case the switch has no branch for \<^verbatim>\<open>t_mod\<close>, which the test
  before it excludes.\<close>

definition lift_row :: "expr option list \<Rightarrow> row \<Rightarrow> expr list option" where
  "lift_row index2expr r =
     (if length (m_vars r) = 0 then Some []
      else if length (m_vars r) = 1 \<and> m_coeff (m_vars r ! 0) < 0 \<and> m_type r \<noteq> t_mod then
        (let v = m_vars r ! 0 in
         case ix index2expr (m_id v) of
           None \<Rightarrow> None
         | Some t0 \<Rightarrow>
             (let t = (if m_coeff v \<noteq> - 1 then EMul [ENum (- m_coeff v) (is_int t0), t0] else t0);
                  s = ENum (r_coeff r) (is_int t)
              in Some [case m_type r of
                         t_lt \<Rightarrow> EGt t s
                       | t_le \<Rightarrow> EGe t s
                       | t_eq \<Rightarrow> EEq t s
                       | t_mod \<Rightarrow> t]))
      else
        (case lift_vars index2expr (m_vars r) of
           None \<Rightarrow> None
         | Some ts \<Rightarrow>
             (let s = ENum (- r_coeff r) (is_int (last ts));
                  t = (if length ts = 1 then ts ! 0 else EAdd ts)
              in Some [case m_type r of
                         t_lt \<Rightarrow> ELt t s
                       | t_le \<Rightarrow> ELe t s
                       | t_eq \<Rightarrow> EEq t s
                       | t_mod \<Rightarrow>
                           EEq (EMod (if r_coeff r \<noteq> 0 then ESub t s else t)
                                     (ENum (m_mod r) True))
                               (ENum 0 True)])))"

fun lift_rows :: "expr option list \<Rightarrow> row list \<Rightarrow> expr list option" where
  "lift_rows index2expr [] = Some []"
| "lift_rows index2expr (r # rs) =
     (case lift_row index2expr r of
        None \<Rightarrow> None
      | Some ls \<Rightarrow>
          (case lift_rows index2expr rs of
             None \<Rightarrow> None
           | Some ls' \<Rightarrow> Some (ls @ ls')))"

text \<open>The projection entry point \<^verbatim>\<open>operator()(model, vars, fmls)\<close>, in two parts. The
  first part runs up to the registration of the variables: it leaves the residue in
  \<^verbatim>\<open>fmls\<close> and the rows in the engine.\<close>

definition project_encode :: "model \<Rightarrow> expr list \<Rightarrow> expr list \<Rightarrow> ctx" where
  "project_encode M vars fmls0 =
     (case lin_loop M 0 0 \<lparr>mbo = mbo_init, fmls = fmls0, tids = []\<rparr> of
        (j, s1) \<Rightarrow> fold (register_var M) vars (s1\<lparr>fmls := take j (fmls s1)\<rparr>))"

text \<open>The marks of the second part: \<^verbatim>\<open>var_mark\<close> holds the variables, \<^verbatim>\<open>fmls_mark\<close> the
  residue literals and, for every registered term that is not one of the variables,
  the term with its sub-terms.\<close>

definition fmls_mark_of :: "expr list \<Rightarrow> ctx \<Rightarrow> expr_mark" where
  "fmls_mark_of vars s =
     (let var_mark = fold mark vars [];
          fmls_mark0 = fold mark (fmls s) []
      in fold (\<lambda>p m. if \<not> is_marked var_mark (fst p) then mark_rec m (fst p) else m)
              (tids s) fmls_mark0)"

text \<open>The second part. The engine's \<^verbatim>\<open>project\<close> followed by \<^verbatim>\<open>get_live_rows\<close> is the
  parameter \<open>engine_project\<close>. The result is the pair of the vectors \<^verbatim>\<open>vars\<close> and
  \<^verbatim>\<open>fmls\<close> as the call leaves them; there is none when a live row names an id that
  \<^verbatim>\<open>index2expr\<close> does not hold. \<^verbatim>\<open>tids.find(v)\<close> is called on registered variables
  only.\<close>

definition project ::
  "(model_based_opt \<Rightarrow> nat list \<Rightarrow> row list) \<Rightarrow> model \<Rightarrow> expr list \<Rightarrow> expr list
     \<Rightarrow> (expr list \<times> expr list) option" where
  "project engine_project M vars fmls0 =
     (if \<not> list_ex is_arith vars then Some (vars, fmls0)
      else
        (let s3 = project_encode M vars fmls0;
             fmls_mark = fmls_mark_of vars s3;
             index2expr = index2expr_of (tids s3);
             real_vars = concat (map (\<lambda>v. if is_arith v \<and> \<not> is_marked fmls_mark v
                                            then (case map_of (tids s3) v of
                                                    Some n \<Rightarrow> [n] | None \<Rightarrow> [])
                                            else []) vars);
             vars' = filter (\<lambda>v. \<not> (is_arith v \<and> \<not> is_marked fmls_mark v)) vars;
             rows = engine_project (mbo s3) real_vars
         in case lift_rows index2expr rows of
              None \<Rightarrow> None
            | Some lits \<Rightarrow> Some (vars', fmls s3 @ lits)))"

section \<open>The optimizer driver\<close>

text \<open>Modelled from the spec: the value of \<^verbatim>\<open>maximize\<close> (\<^verbatim>\<open>opt::inf_eps\<close>) is a
  rational, infinite, or a rational with an infinitesimal offset.\<close>

record inf_eps =
  infty :: rat
  rational :: rat
  infinitesimal :: rat

definition is_finite :: "inf_eps \<Rightarrow> bool" where
  "is_finite v = (infty v = 0)"

text \<open>The value the evaluator returns, as a term.\<close>

fun expr_of_val :: "val \<Rightarrow> expr" where
  "expr_of_val (VNum r) = ENum r False"
| "expr_of_val (VBool b) = (if b then ETrue else EFalse)"

text \<open>\<^verbatim>\<open>mdl.register_decl(f, val)\<close> for a registered term that is an uninterpreted
  constant.\<close>

definition update_model :: "(nat \<Rightarrow> rat) \<Rightarrow> expr \<times> nat \<Rightarrow> model \<Rightarrow> model" where
  "update_model get_value p M =
     (case fst p of
        EApp f srt [] \<Rightarrow> M(f := (\<lambda>args. if args = [] then VNum (get_value (snd p)) else M f args))
      | _ \<Rightarrow> M)"

text \<open>\<^verbatim>\<open>maximize\<close>, in two parts. The first part encodes the objective and the
  constraints into the engine.\<close>

definition maximize_encode :: "expr list \<Rightarrow> model \<Rightarrow> expr \<Rightarrow> ctx" where
  "maximize_encode fmls0 mdl t =
     (case linearize_term mdl 1 t ([], 0, \<lparr>mbo = mbo_init, fmls = fmls0, tids = []\<rparr>) of
        (ts, c, s1) \<Rightarrow>
          (case extract_coefficients mdl ts s1 of
             (coeffs, s2) \<Rightarrow> max_loop mdl 0 (s2\<lparr>mbo := set_objective coeffs c (mbo s2)\<rparr>)))"

text \<open>The second part. The engine's \<^verbatim>\<open>maximize\<close> and \<^verbatim>\<open>get_value\<close> are the parameter
  \<open>engine_maximize\<close>. The result is the value, the bounds \<^verbatim>\<open>ge\<close> and \<^verbatim>\<open>gt\<close>, and the
  updated model.\<close>

definition maximize ::
  "(model_based_opt \<Rightarrow> inf_eps \<times> (nat \<Rightarrow> rat)) \<Rightarrow> expr list \<Rightarrow> model \<Rightarrow> expr
     \<Rightarrow> inf_eps \<times> expr \<times> expr \<times> model" where
  "maximize engine_maximize fmls0 mdl t =
     (let s4 = maximize_encode fmls0 mdl t;
          (value, get_value) = engine_maximize (mbo s4);
          mdl' = fold (update_model get_value) (tids s4) mdl;
          val = ENum (rational value) False;
          tval = expr_of_val (eval mdl' t)
      in if \<not> is_finite value then (value, EGe t tval, EFalse, mdl')
         else if infinitesimal value < 0 then (value, EGe t tval, EGe t val, mdl')
         else (value, EGe t val, EGt t val, mdl'))"

section \<open>Lifting rows back to literals\<close>

text \<open>The literal of the first case of lifting, as the specification words it: the
  mirror of the row type between the negated term and a constant.\<close>

definition mirror_lit :: "ineq_type \<Rightarrow> expr \<Rightarrow> expr \<Rightarrow> expr" where
  "mirror_lit ty t s = (case ty of t_lt \<Rightarrow> EGt t s | t_le \<Rightarrow> EGe t s | t_eq \<Rightarrow> EEq t s | t_mod \<Rightarrow> t)"

definition neg_term :: "rat \<Rightarrow> expr \<Rightarrow> expr" where
  "neg_term q x = (if q = - 1 then x else EMul [ENum (- q) (is_int x), x])"

text \<open>
  C2, as amended. A row with exactly one variable, a negative coefficient and a type
  other than \<^verbatim>\<open>mod\<close> lifts to the literal \<open>(- coeff \<cdot> x) R' c\<close>, where \<open>c\<close> is the row's
  constant itself (not its negation) and \<open>R'\<close> mirrors the row type: \<open><\<close> becomes \<open>>\<close>,
  \<open>\<le>\<close> becomes \<open>\<ge>\<close>, \<open>=\<close> stays. The product with the numeral is left out when the
  coefficient is \<open>-1\<close>.
\<close>

theorem lift_row_unit_negative:
  assumes "m_vars r = [v]" and "m_coeff v < 0" and "m_type r \<noteq> t_mod"
    and "ix index2expr (m_id v) = Some x"
  shows "lift_row index2expr r =
           Some [mirror_lit (m_type r) (neg_term (m_coeff v) x) (ENum (r_coeff r) (is_int x))]"
  using assms
  by (cases "m_type r") (simp_all add: lift_row_def Let_def mirror_lit_def neg_term_def is_int_def)

theorem lift_row_unit_negative_witness:
  "lift_row [Some (EApp ''x'' RealS [])]
     \<lparr>m_vars = [\<lparr>m_id = 0, m_coeff = - 2\<rparr>], r_coeff = 3, m_type = t_lt, m_mod = 0\<rparr>
   = Some [EGt (EMul [ENum 2 False, EApp ''x'' RealS []]) (ENum 3 False)]"
  using lift_row_unit_negative [of "\<lparr>m_vars = [\<lparr>m_id = 0, m_coeff = - 2\<rparr>], r_coeff = 3, m_type = t_lt, m_mod = 0\<rparr>"
      "\<lparr>m_id = 0, m_coeff = - 2\<rparr>" "[Some (EApp ''x'' RealS [])]" "EApp ''x'' RealS []"]
  by (simp add: ix_def mirror_lit_def neg_term_def is_int_def)

text \<open>
  C2, as stated, fails: the row \<open>-2 x + 3 < 0\<close> lifts to \<open>2 x > 3\<close>, and not to
  \<open>2 x > -3\<close>.
\<close>

theorem lift_row_unit_negative_counterexample:
  "lift_row [Some (EApp ''x'' RealS [])]
     \<lparr>m_vars = [\<lparr>m_id = 0, m_coeff = - 2\<rparr>], r_coeff = 3, m_type = t_lt, m_mod = 0\<rparr>
   = Some [EGt (EMul [ENum 2 False, EApp ''x'' RealS []]) (ENum 3 False)]
   \<and> lift_row [Some (EApp ''x'' RealS [])]
     \<lparr>m_vars = [\<lparr>m_id = 0, m_coeff = - 2\<rparr>], r_coeff = 3, m_type = t_lt, m_mod = 0\<rparr>
   \<noteq> Some [EGt (EMul [ENum 2 False, EApp ''x'' RealS []]) (ENum (- 3) False)]"
  by (simp add: lift_row_def ix_def Let_def is_int_def)

text \<open>
  C10. A live row without variables pushes no literal: lifting it yields the empty list,
  and the literals lifted from a list of rows are those of its rows that have a
  variable.
\<close>

theorem lift_rows_drops_constant_rows:
  "lift_row index2expr (r\<lparr>m_vars := []\<rparr>) = Some []
   \<and> lift_rows index2expr (r\<lparr>m_vars := []\<rparr> # rs) = lift_rows index2expr rs
   \<and> lift_rows index2expr rows = lift_rows index2expr (filter (\<lambda>r. m_vars r \<noteq> []) rows)"
proof -
  have 1: "lift_row index2expr r' = Some []" if "m_vars r' = []" for r'
    using that by (simp add: lift_row_def)
  have 2: "lift_rows index2expr rows = lift_rows index2expr (filter (\<lambda>r. m_vars r \<noteq> []) rows)"
    by (induction rows) (auto simp: 1 split: option.splits)
  show ?thesis using 1 [of "r\<lparr>m_vars := []\<rparr>"] 2 by (simp split: option.splits)
qed

section \<open>Example inputs\<close>

text \<open>Three real constants and a model that gives them values; every other symbol is
  true.\<close>

definition var_x :: expr where "var_x = EApp ''x'' RealS []"
definition var_y :: expr where "var_y = EApp ''y'' RealS []"
definition var_z :: expr where "var_z = EApp ''z'' RealS []"

definition model_xyz :: "rat \<Rightarrow> rat \<Rightarrow> rat \<Rightarrow> model" where
  "model_xyz a b c f args =
     (if f = ''x'' then VNum a else if f = ''y'' then VNum b
      else if f = ''z'' then VNum c else VBool True)"

definition ctx_init :: "expr list \<Rightarrow> ctx" where
  "ctx_init fmls0 = \<lparr>mbo = mbo_init, fmls = fmls0, tids = []\<rparr>"

lemmas ex_defs = var_x_def var_y_def var_z_def model_xyz_def ctx_init_def mbo_init_def

section \<open>The coefficient extractor\<close>

text \<open>A coefficient vector without zero entries, and an engine none of whose rows, and
  whose objective, has one.\<close>

definition nonzero :: "var list \<Rightarrow> bool" where
  "nonzero coeffs = list_all (\<lambda>v. m_coeff v \<noteq> 0) coeffs"

definition no_zero :: "model_based_opt \<Rightarrow> bool" where
  "no_zero e = (list_all (\<lambda>r. nonzero (m_vars r)) (m_rows e)
                \<and> (case m_objective e of None \<Rightarrow> True | Some oc \<Rightarrow> nonzero (fst oc)))"

lemma extract_step_nonzero: "nonzero (fst cs) \<Longrightarrow> nonzero (fst (extract_step M e cs))"
  by (auto simp: extract_step_def Let_def nonzero_def split: option.splits prod.splits)

lemma extract_step_no_zero: "no_zero (mbo (snd cs)) \<Longrightarrow> no_zero (mbo (snd (extract_step M e cs)))"
  by (auto simp: extract_step_def Let_def no_zero_def add_var_def split: option.splits prod.splits)

lemma fold_extract_nonzero:
  "nonzero (fst cs) \<Longrightarrow> nonzero (fst (fold (extract_step M) ts cs))"
  by (induction ts arbitrary: cs) (simp_all add: extract_step_nonzero)

lemma fold_extract_no_zero:
  "no_zero (mbo (snd cs)) \<Longrightarrow> no_zero (mbo (snd (fold (extract_step M) ts cs)))"
  by (induction ts arbitrary: cs) (simp_all add: extract_step_no_zero)

lemma extract_coefficients_nonzero: "nonzero (fst (extract_coefficients M ts s))"
  using fold_extract_nonzero [of "([], s)" M ts]
  by (simp add: extract_coefficients_def nonzero_def)

lemma extract_coefficients_no_zero:
  "no_zero (mbo s) \<Longrightarrow> no_zero (mbo (snd (extract_coefficients M ts s)))"
  by (simp add: extract_coefficients_def fold_extract_no_zero)

lemma add_divides_no_zero: "nonzero cs \<Longrightarrow> no_zero e \<Longrightarrow> no_zero (add_divides cs c m e)"
  by (simp add: no_zero_def add_divides_def)

lemma add_constraint_no_zero: "nonzero cs \<Longrightarrow> no_zero e \<Longrightarrow> no_zero (add_constraint cs c ty e)"
  by (simp add: no_zero_def add_constraint_def)

lemma set_objective_no_zero: "nonzero cs \<Longrightarrow> no_zero e \<Longrightarrow> no_zero (set_objective cs c e)"
  by (simp add: no_zero_def set_objective_def)

lemma fold_no_zero:
  assumes "\<And>x st. x \<in> set args \<Longrightarrow> no_zero (mbo (lctx st)) \<Longrightarrow> no_zero (mbo (lctx (f x st)))"
  shows "no_zero (mbo (lctx st)) \<Longrightarrow> no_zero (mbo (lctx (fold f args st)))"
  using assms by (induction args arbitrary: st) auto

lemma linearize_term_no_zero:
  "no_zero (mbo (lctx l)) \<Longrightarrow> no_zero (mbo (lctx (linearize_term M mul t l)))"
proof (induction M mul t l rule: linearize_term.induct)
  case (1 M mul t1 t2 ts c s)
  then show ?case by (auto split: option.splits)
next
  case (2 M mul args ts c s)
  show ?case using fold_no_zero [of args "linearize_term M mul" "(ts, c, s)"] 2 by simp
next
  case (6 M mul t1 t2 t3 ts c s)
  then show ?case by (auto split: prod.splits)
next
  case (7 M mul t1 t2 ts c s)
  show ?case
  proof (cases "is_numeral t2")
    case None
    then show ?thesis using 7 by simp
  next
    case (Some k)
    define r where "r = num (eval M (EMod t1 t2))"
    obtain ts0 c0 s0 where l: "linearize_term M 1 t1 ([], - r, s) = (ts0, c0, s0)"
      by (cases "linearize_term M 1 t1 ([], - r, s)") auto
    obtain coeffs s1 where e: "extract_coefficients M ts0 s0 = (coeffs, s1)"
      by (cases "extract_coefficients M ts0 s0") auto
    from 7(1) [OF Some r_def] l 7(2) have "no_zero (mbo s0)" by simp
    then have "no_zero (mbo s1)" using extract_coefficients_no_zero [of s0 M ts0] e by simp
    moreover have "nonzero coeffs" using extract_coefficients_nonzero [of M ts0 s0] e by simp
    ultimately have "no_zero (add_divides coeffs c0 k (mbo s1))" by (simp add: add_divides_no_zero)
    then show ?thesis using Some l e r_def [symmetric] by (simp del: eval.simps)
  qed
qed simp_all

lemma add_row_no_zero: "no_zero (mbo (lctx l)) \<Longrightarrow> no_zero (mbo (snd (add_row M ty l)))"
  using extract_coefficients_nonzero [of M "fst l" "lctx l"]
    extract_coefficients_no_zero [of "lctx l" M "fst l"]
  by (auto simp: add_row_def add_constraint_no_zero split: prod.splits)

lemma lin_diff_no_zero: "no_zero (mbo s) \<Longrightarrow> no_zero (mbo (lctx (lin_diff M mul e1 e2 s)))"
  by (simp add: lin_diff_def linearize_term_no_zero)

lemma fold_lt_step_no_zero:
  "no_zero (mbo (snd st)) \<Longrightarrow> no_zero (mbo (snd (fold (lt_step M) ps st)))"
  by (induction ps arbitrary: st) (simp_all add: lt_step_def add_row_no_zero lin_diff_no_zero)

lemma linearize_lit_no_zero:
  assumes "no_zero (mbo s)"
  shows "no_zero (mbo (snd (linearize_lit M lit s)))"
proof (cases "is_cmp lit \<or> (\<exists>l. lit = ENot l \<and> is_cmp l)")
  case False
  then show ?thesis using linearize_lit_other [of lit M s] assms by simp
next
  case True
  then show ?thesis
  proof
    assume "is_cmp lit"
    then show ?thesis using assms
      by (cases lit)
        (auto simp: is_cmp_def linearize_lit_cases linearize_lit_eq linearize_lit_distinct Let_def
          add_row_no_zero lin_diff_no_zero fold_lt_step_no_zero split: list.splits)
  next
    assume "\<exists>l. lit = ENot l \<and> is_cmp l"
    then obtain l where l: "lit = ENot l" "is_cmp l" by blast
    then show ?thesis using assms
      by (cases l)
        (auto simp: is_cmp_def linearize_lit_cases linearize_lit_neq linearize_lit_not_distinct
          add_row_no_zero lin_diff_no_zero split: list.splits option.splits)
  qed
qed

lemma max_loop_no_zero: "no_zero (mbo s) \<Longrightarrow> no_zero (mbo (max_loop M i s))"
proof (induction M i s rule: max_loop.induct)
  case (1 M i s)
  show ?case
  proof (cases "i < length (fmls s)")
    case True
    then show ?thesis using 1 linearize_lit_no_zero [of s M "fmls s ! i"]
      by (simp add: max_loop_step)
  next
    case False
    then show ?thesis using 1 by (simp add: max_loop_stop)
  qed
qed

lemma lin_loop_no_zero: "no_zero (mbo s) \<Longrightarrow> no_zero (mbo (snd (lin_loop M i j s)))"
proof (induction M i j s rule: lin_loop.induct)
  case (1 M i j s)
  show ?case
  proof (cases "i < length (fmls s) \<and> j \<le> i")
    case True
    obtain b s' where r: "linearize_lit M (fmls s ! i) s = (b, s')"
      by (cases "linearize_lit M (fmls s ! i) s") auto
    have nz: "no_zero (mbo s')" using linearize_lit_no_zero [of s M "fmls s ! i"] 1(3) r by simp
    show ?thesis
    proof (cases b)
      case True
      from 1(2) [OF \<open>i < length (fmls s) \<and> j \<le> i\<close> r [symmetric]] True nz
      have "no_zero (mbo (snd (lin_loop M (i + 1) j s')))" by simp
      then show ?thesis using \<open>i < length (fmls s) \<and> j \<le> i\<close> r True
        by (simp add: lin_loop_step)
    next
      case False
      define s'' where "s'' = (if i \<noteq> j then s'\<lparr>fmls := (fmls s')[j := fmls s' ! i]\<rparr> else s')"
      have "no_zero (mbo s'')" using nz by (simp add: s''_def)
      with 1(1) [OF \<open>i < length (fmls s) \<and> j \<le> i\<close> r [symmetric]] False
      have "no_zero (mbo (snd (lin_loop M (i + 1) (j + 1) s'')))" by (simp add: s''_def)
      then show ?thesis using \<open>i < length (fmls s) \<and> j \<le> i\<close> r False
        by (simp add: lin_loop_step s''_def)
    qed
  next
    case False
    then show ?thesis using 1(3) by (simp add: lin_loop_stop)
  qed
qed


lemma project_encode_no_zero: "no_zero (mbo (project_encode M vars fmls0))"
proof -
  have r: "no_zero (mbo s) \<Longrightarrow> no_zero (mbo (fold (register_var M) vs s))" for vs s
    by (induction vs arbitrary: s)
       (auto simp: register_var_def no_zero_def add_var_def Let_def split: prod.splits)
  have "no_zero (mbo (snd (lin_loop M 0 0 \<lparr>mbo = mbo_init, fmls = fmls0, tids = []\<rparr>)))"
    by (rule lin_loop_no_zero) (simp add: no_zero_def mbo_init_def)
  then show ?thesis
    by (auto simp: project_encode_def split: prod.splits intro!: r)
qed

lemma maximize_encode_no_zero: "no_zero (mbo (maximize_encode fmls0 M t))"
proof -
  define s0 where "s0 = \<lparr>mbo = mbo_init, fmls = fmls0, tids = []\<rparr>"
  obtain ts c s1 where l: "linearize_term M 1 t ([], 0, s0) = (ts, c, s1)"
    by (cases "linearize_term M 1 t ([], 0, s0)") auto
  obtain coeffs s2 where e: "extract_coefficients M ts s1 = (coeffs, s2)"
    by (cases "extract_coefficients M ts s1") auto
  have "no_zero (mbo s0)" by (simp add: s0_def no_zero_def mbo_init_def)
  then have "no_zero (mbo s1)" using linearize_term_no_zero [of "([], 0, s0)" M 1 t] l by simp
  then have "no_zero (mbo s2)" using extract_coefficients_no_zero [of s1 M ts] e by simp
  moreover have "nonzero coeffs" using extract_coefficients_nonzero [of M ts s1] e by simp
  ultimately have "no_zero (mbo (s2\<lparr>mbo := set_objective coeffs c (mbo s2)\<rparr>))"
    by (simp add: set_objective_no_zero)
  then show ?thesis using l e
    by (simp add: maximize_encode_def s0_def [symmetric] max_loop_no_zero)
qed

lemma extract_step_keeps:
  "map_of (tids (snd cs)) t = Some n \<Longrightarrow> map_of (tids (snd (extract_step M e cs))) t = Some n"
  by (auto simp: extract_step_def Let_def add_var_def map_of_obj_insert split: option.splits prod.splits)

lemma extract_step_vals:
  "\<exists>ext. m_var2value (mbo (snd (extract_step M e cs))) = m_var2value (mbo (snd cs)) @ ext"
  by (auto simp: extract_step_def Let_def add_var_def split: option.splits prod.splits)

lemma fold_extract_keeps:
  "map_of (tids (snd cs)) t = Some n \<Longrightarrow> map_of (tids (snd (fold (extract_step M) ts cs))) t = Some n"
  by (induction ts arbitrary: cs) (simp_all add: extract_step_keeps)

lemma fold_extract_vals:
  "\<exists>ext. m_var2value (mbo (snd (fold (extract_step M) ts cs))) = m_var2value (mbo (snd cs)) @ ext"
proof (induction ts arbitrary: cs)
  case Nil
  show ?case by simp
next
  case (Cons e ts)
  from extract_step_vals [of M e cs] obtain e1
    where 1: "m_var2value (mbo (snd (extract_step M e cs))) = m_var2value (mbo (snd cs)) @ e1" by blast
  from Cons [of "extract_step M e cs"] obtain e2
    where 2: "m_var2value (mbo (snd (fold (extract_step M) ts (extract_step M e cs))))
              = m_var2value (mbo (snd (extract_step M e cs))) @ e2" by blast
  show ?case using 1 2 by simp
qed

definition registered :: "model \<Rightarrow> ctx \<Rightarrow> ctx \<Rightarrow> expr \<Rightarrow> bool" where
  "registered M s s' t =
     (\<exists>n. map_of (tids s') t = Some n \<and>
        (map_of (tids s) t = None \<longrightarrow>
           length (m_var2value (mbo s)) \<le> n \<and> n < length (m_var2value (mbo s')) \<and>
           m_var2value (mbo s') ! n = num (eval M t)))"

lemma extract_step_registers:
  "\<exists>n. map_of (tids (snd (extract_step M e cs))) (fst e) = Some n \<and>
     (map_of (tids (snd cs)) (fst e) = None \<longrightarrow>
        n = length (m_var2value (mbo (snd cs))) \<and>
        m_var2value (mbo (snd (extract_step M e cs))) = m_var2value (mbo (snd cs)) @ [num (eval M (fst e))])"
  by (auto simp: extract_step_def Let_def add_var_def map_of_obj_insert split: option.splits prod.splits)

lemma extract_step_new_key:
  "map_of (tids (snd cs)) t = None \<Longrightarrow> map_of (tids (snd (extract_step M e cs))) t \<noteq> None \<Longrightarrow> t = fst e"
  by (auto simp: extract_step_def Let_def add_var_def map_of_obj_insert split: option.splits prod.splits if_splits)

lemma fold_extract_registers:
  "e \<in> set ts \<Longrightarrow> registered M (snd cs) (snd (fold (extract_step M) ts cs)) (fst e)"
proof (induction ts arbitrary: cs)
  case Nil
  then show ?case by simp
next
  case (Cons x ts)
  define c1 where "c1 = extract_step M x cs"
  define s' where "s' = snd (fold (extract_step M) ts c1)"
  from fold_extract_vals [of M ts c1] obtain ext
    where ext: "m_var2value (mbo s') = m_var2value (mbo (snd c1)) @ ext" by (auto simp: s'_def)
  from extract_step_vals [of M x cs] obtain ext1
    where ext1: "m_var2value (mbo (snd c1)) = m_var2value (mbo (snd cs)) @ ext1" by (auto simp: c1_def)
  have head: "registered M (snd cs) s' (fst x)"
  proof -
    from extract_step_registers [of M x cs] obtain n where
      n: "map_of (tids (snd c1)) (fst x) = Some n"
        "map_of (tids (snd cs)) (fst x) = None \<longrightarrow>
           n = length (m_var2value (mbo (snd cs))) \<and>
           m_var2value (mbo (snd c1)) = m_var2value (mbo (snd cs)) @ [num (eval M (fst x))]"
      by (auto simp: c1_def)
    have "map_of (tids s') (fst x) = Some n"
      unfolding s'_def using n(1) by (rule fold_extract_keeps)
    then show ?thesis using n(2) ext by (auto simp: registered_def nth_append)
  qed
  show ?case
  proof (cases "fst e = fst x")
    case True
    then show ?thesis using head by (simp add: c1_def s'_def)
  next
    case False
    with Cons.prems have "e \<in> set ts"
      by auto
    from Cons.IH [OF this, of c1] have r: "registered M (snd c1) s' (fst e)" by (simp add: s'_def)
    have "map_of (tids (snd cs)) (fst e) = None \<Longrightarrow> map_of (tids (snd c1)) (fst e) = None"
      using extract_step_new_key [of cs "fst e" M x] False by (cases "map_of (tids (snd c1)) (fst e)") (auto simp: c1_def)
    then have "registered M (snd cs) s' (fst e)"
      using r ext1 by (auto simp: registered_def)
    then show ?thesis by (simp add: c1_def s'_def)
  qed
qed

text \<open>
  C9. The vector \<^verbatim>\<open>extract_coefficients\<close> returns has no zero coefficient, while every
  term of the accumulator, also one with coefficient zero, is registered afterwards:
  \<^verbatim>\<open>tids\<close> maps it to an id, and when it was not registered before, the id is a fresh
  one whose seed is the value of the term in the model. Every vector submitted (with
  \<^verbatim>\<open>add_constraint\<close>, \<^verbatim>\<open>add_divides\<close> or \<^verbatim>\<open>set_objective\<close>) comes from the extractor, so
  the engine that the projection and the optimizer build has no zero coefficient in a
  row or in the objective.
\<close>

theorem extract_coefficients_skips_zero:
  "nonzero (fst (extract_coefficients M ts s))
   \<and> list_all (\<lambda>e. registered M s (snd (extract_coefficients M ts s)) (fst e)) ts
   \<and> no_zero (mbo (project_encode M vars fmls0))
   \<and> no_zero (mbo (maximize_encode fmls0 M t))"
  using fold_extract_registers [of _ ts M "([], s)"] extract_coefficients_nonzero [of M ts s]
  by (simp add: project_encode_no_zero maximize_encode_no_zero
      extract_coefficients_def list_all_iff)

theorem extract_coefficients_skips_zero_witness:
  "extract_coefficients (model_xyz 1 2 3) [(var_x, 2), (var_y, 0)] (ctx_init [])
     = ([\<lparr>m_id = 0, m_coeff = 2\<rparr>],
        \<lparr>mbo = \<lparr>m_var2value = [1, 2], m_var2is_int = [False, False], m_rows = [], m_objective = None\<rparr>,
         fmls = [], tids = [(var_x, 0), (var_y, 1)]\<rparr>)
   \<and> nonzero (fst (extract_coefficients (model_xyz 1 2 3) [(var_x, 2), (var_y, 0)] (ctx_init [])))
   \<and> registered (model_xyz 1 2 3) (ctx_init [])
        (snd (extract_coefficients (model_xyz 1 2 3) [(var_x, 2), (var_y, 0)] (ctx_init []))) var_y
   \<and> map_of (tids (ctx_init [])) var_y = None"
  using extract_coefficients_skips_zero [of "model_xyz 1 2 3" "[(var_x, 2), (var_y, 0)]" "ctx_init []" "[]" "[]" var_x]
  by (simp add: ex_defs extract_coefficients_def extract_step_def add_var_def is_int_def Let_def)

section \<open>Disequalities\<close>

text \<open>The branch for a negated equality as the specification words it: the sides are
  swapped when the value of the first exceeds the value of the second, and then
  \<open>+e\<^sub>1\<close> and \<open>-e\<^sub>2\<close> are accumulated under the sign of the negation into a strict row.\<close>

definition linearize_neq_spec :: "model \<Rightarrow> expr \<Rightarrow> expr \<Rightarrow> ctx \<Rightarrow> bool \<times> ctx" where
  "linearize_neq_spec M e1 e2 s =
     (if num (eval M e1) > num (eval M e2) then add_row M t_lt (lin_diff M (- 1) e2 e1 s)
      else add_row M t_lt (lin_diff M (- 1) e1 e2 s))"

lemma add_row_last:
  "fst (add_row M ty l) = True \<and> m_type (last (m_rows (mbo (snd (add_row M ty l))))) = ty"
  by (auto simp: add_row_def add_constraint_def split: prod.splits)

lemmas run_defs = lin_diff_def add_row_def extract_coefficients_def extract_step_def add_var_def
  add_constraint_def add_divides_def insert_mul_def is_int_def is_real_def is_arith_def Let_def

text \<open>
  C3, as amended. For a literal \<open>\<not> (e\<^sub>1 = e\<^sub>2)\<close> with an arithmetic first side, both sides
  are evaluated in the model and swapped exactly when the value of \<open>e\<^sub>1\<close> is less than
  the value of \<open>e\<^sub>2\<close>; then \<open>+e\<^sub>1\<close> and \<open>-e\<^sub>2\<close> are accumulated with the multiplier \<open>-1\<close>
  of the negation, and the combination is submitted as one row, of type \<open><\<close>.
\<close>

theorem linearize_lit_neq_swaps:
  assumes "is_arith e1"
  shows "linearize_lit M (ENot (EEq e1 e2)) s =
           (if num (eval M e1) < num (eval M e2) then add_row M t_lt (lin_diff M (- 1) e2 e1 s)
            else add_row M t_lt (lin_diff M (- 1) e1 e2 s))
         \<and> fst (linearize_lit M (ENot (EEq e1 e2)) s) = True
         \<and> m_type (last (m_rows (mbo (snd (linearize_lit M (ENot (EEq e1 e2)) s))))) = t_lt"
  using assms by (simp add: linearize_lit_neq add_row_last)

theorem linearize_lit_neq_swaps_witness:
  "is_arith var_x \<and>
   linearize_lit (model_xyz 1 2 3) (ENot (EEq var_x var_y)) (ctx_init []) =
     (True, \<lparr>mbo = \<lparr>m_var2value = [2, 1], m_var2is_int = [False, False],
                     m_rows = [\<lparr>m_vars = [\<lparr>m_id = 0, m_coeff = - 1\<rparr>, \<lparr>m_id = 1, m_coeff = 1\<rparr>],
                                r_coeff = 0, m_type = t_lt, m_mod = 0\<rparr>],
                     m_objective = None\<rparr>,
             fmls = [], tids = [(var_y, 0), (var_x, 1)]\<rparr>)"
  using linearize_lit_neq_swaps [of var_x "model_xyz 1 2 3" var_y "ctx_init []"]
  by (simp add: ex_defs run_defs)

text \<open>
  C3, as stated, fails: with \<open>x = 1\<close> and \<open>y = 2\<close> the sides of \<open>\<not> (x = y)\<close> are swapped
  although the value of \<open>x\<close> does not exceed the value of \<open>y\<close>; the row is \<open>x - y < 0\<close>,
  and not the row \<open>y - x < 0\<close> that the stated rule gives.
\<close>

theorem linearize_lit_neq_counterexample:
  "num (eval (model_xyz 1 2 3) var_x) < num (eval (model_xyz 1 2 3) var_y)
   \<and> linearize_lit (model_xyz 1 2 3) (ENot (EEq var_x var_y)) (ctx_init [])
       \<noteq> linearize_neq_spec (model_xyz 1 2 3) var_x var_y (ctx_init [])
   \<and> linearize_lit (model_xyz 1 2 3) (ENot (EEq var_x var_y)) (ctx_init [])
       = add_row (model_xyz 1 2 3) t_lt (lin_diff (model_xyz 1 2 3) (- 1) var_y var_x (ctx_init []))"
  by (simp add: linearize_lit_neq linearize_neq_spec_def ex_defs run_defs)

section \<open>The bounds of the optimizer\<close>

text \<open>
  C5. \<^verbatim>\<open>maximize\<close> returns the value of the engine. When the value is not finite, \<^verbatim>\<open>ge\<close>
  is \<open>t \<ge> M(t)\<close>, which the model satisfies, and \<^verbatim>\<open>gt\<close> is false; when it is finite with
  a negative infinitesimal part, \<^verbatim>\<open>ge\<close> is \<open>t \<ge> M(t)\<close> and \<^verbatim>\<open>gt\<close> is \<open>t \<ge> value\<close>;
  otherwise \<^verbatim>\<open>ge\<close> is \<open>t \<ge> value\<close> and \<^verbatim>\<open>gt\<close> is \<open>t > value\<close>. \<open>M(t)\<close> is the value of
  \<open>t\<close> in the model as \<^verbatim>\<open>maximize\<close> has updated it with the values of the engine.
\<close>

theorem maximize_bounds:
  "maximize engine_maximize fmls0 mdl t = (value, ge, gt, mdl') \<Longrightarrow>
     (\<not> is_finite value \<longrightarrow>
        ge = EGe t (expr_of_val (eval mdl' t)) \<and> gt = EFalse \<and> is_true (eval mdl' ge))
   \<and> (is_finite value \<and> infinitesimal value < 0 \<longrightarrow>
        ge = EGe t (expr_of_val (eval mdl' t)) \<and> gt = EGe t (ENum (rational value) False))
   \<and> (is_finite value \<and> 0 \<le> infinitesimal value \<longrightarrow>
        ge = EGe t (ENum (rational value) False) \<and> gt = EGt t (ENum (rational value) False))
   \<and> value = fst (engine_maximize (mbo (maximize_encode fmls0 mdl t)))
   \<and> mdl' = fold (update_model (snd (engine_maximize (mbo (maximize_encode fmls0 mdl t)))))
               (tids (maximize_encode fmls0 mdl t)) mdl"
proof -
  have "is_true (eval m (EGe t (expr_of_val (eval m t))))" for m
    by (cases "eval m t") (auto simp: is_true_def)
  then show "maximize engine_maximize fmls0 mdl t = (value, ge, gt, mdl') \<Longrightarrow> ?thesis"
    by (auto simp: maximize_def Let_def split: prod.splits if_splits)
qed

text \<open>An engine for the examples whose \<^verbatim>\<open>maximize\<close> returns a fixed value and gives
  every variable the same value; three constraints over \<open>x\<close> and \<open>y\<close>.\<close>

definition engine_const :: "inf_eps \<Rightarrow> rat \<Rightarrow> model_based_opt \<Rightarrow> inf_eps \<times> (nat \<Rightarrow> rat)" where
  "engine_const v r e = (v, \<lambda>i. r)"

definition fmls_sum :: "expr list" where
  "fmls_sum = [ELe (EAdd [var_x, var_y]) (ENum 10 False), EGe var_x (ENum 0 False),
               EGe var_y (ENum 0 False)]"

lemma maximize_encode_example:
  "maximize_encode fmls_sum (model_xyz 3 3 0) (EAdd [var_x, var_y]) =
     \<lparr>mbo = \<lparr>m_var2value = [3, 3], m_var2is_int = [False, False],
             m_rows = [\<lparr>m_vars = [\<lparr>m_id = 0, m_coeff = 1\<rparr>, \<lparr>m_id = 1, m_coeff = 1\<rparr>],
                        r_coeff = - 10, m_type = t_le, m_mod = 0\<rparr>,
                       \<lparr>m_vars = [\<lparr>m_id = 0, m_coeff = - 1\<rparr>], r_coeff = 0, m_type = t_le, m_mod = 0\<rparr>,
                       \<lparr>m_vars = [\<lparr>m_id = 1, m_coeff = - 1\<rparr>], r_coeff = 0, m_type = t_le, m_mod = 0\<rparr>],
             m_objective = Some ([\<lparr>m_id = 0, m_coeff = 1\<rparr>, \<lparr>m_id = 1, m_coeff = 1\<rparr>], 0)\<rparr>,
      fmls = fmls_sum, tids = [(var_x, 0), (var_y, 1)]\<rparr>"
  by (simp add: maximize_encode_def fmls_sum_def max_loop.simps linearize_lit_cases set_objective_def
      ex_defs run_defs)

theorem maximize_bounds_witness:
  "fst (snd (maximize (engine_const \<lparr>infty = 1, rational = 0, infinitesimal = 0\<rparr> 4)
        fmls_sum (model_xyz 3 3 0) (EAdd [var_x, var_y])))
     = EGe (EAdd [var_x, var_y]) (ENum 8 False)
   \<and> fst (snd (snd (maximize (engine_const \<lparr>infty = 1, rational = 0, infinitesimal = 0\<rparr> 4)
        fmls_sum (model_xyz 3 3 0) (EAdd [var_x, var_y])))) = EFalse
   \<and> fst (snd (maximize (engine_const \<lparr>infty = 0, rational = 10, infinitesimal = - 1\<rparr> 4)
        fmls_sum (model_xyz 3 3 0) (EAdd [var_x, var_y])))
     = EGe (EAdd [var_x, var_y]) (ENum 8 False)
   \<and> fst (snd (snd (maximize (engine_const \<lparr>infty = 0, rational = 10, infinitesimal = - 1\<rparr> 4)
        fmls_sum (model_xyz 3 3 0) (EAdd [var_x, var_y]))))
     = EGe (EAdd [var_x, var_y]) (ENum 10 False)
   \<and> fst (snd (maximize (engine_const \<lparr>infty = 0, rational = 10, infinitesimal = 0\<rparr> 5)
        fmls_sum (model_xyz 3 3 0) (EAdd [var_x, var_y])))
     = EGe (EAdd [var_x, var_y]) (ENum 10 False)
   \<and> fst (snd (snd (maximize (engine_const \<lparr>infty = 0, rational = 10, infinitesimal = 0\<rparr> 5)
        fmls_sum (model_xyz 3 3 0) (EAdd [var_x, var_y]))))
     = EGt (EAdd [var_x, var_y]) (ENum 10 False)"
proof -
  let ?t = "EAdd [var_x, var_y]"
  let ?M = "model_xyz 3 3 0"
  have split: "R = (fst R, fst (snd R), fst (snd (snd R)), snd (snd (snd R)))"
    for R :: "inf_eps \<times> expr \<times> expr \<times> model"
    by simp
  have v: "fst (maximize (engine_const w r) fmls_sum ?M ?t) = w" for w r
    by (simp add: maximize_def engine_const_def Let_def)
  have m: "eval (snd (snd (snd (maximize (engine_const w r) fmls_sum ?M ?t)))) ?t = VNum (r + r)" for w r
    unfolding maximize_def maximize_encode_example
    by (simp add: engine_const_def Let_def update_model_def var_x_def var_y_def)
  note a = maximize_bounds [OF split [of "maximize (engine_const \<lparr>infty = 1, rational = 0, infinitesimal = 0\<rparr> 4) fmls_sum ?M ?t"]]
  note b = maximize_bounds [OF split [of "maximize (engine_const \<lparr>infty = 0, rational = 10, infinitesimal = - 1\<rparr> 4) fmls_sum ?M ?t"]]
  note c = maximize_bounds [OF split [of "maximize (engine_const \<lparr>infty = 0, rational = 10, infinitesimal = 0\<rparr> 5) fmls_sum ?M ?t"]]
  show ?thesis using a b c by (simp add: v m is_finite_def del: eval.simps)
qed

section \<open>Scope of the eliminated variables\<close>

text \<open>An engine for the examples: its projection keeps the rows that mention no
  eliminated variable.\<close>

definition engine_drop :: "model_based_opt \<Rightarrow> nat list \<Rightarrow> row list" where
  "engine_drop e vs = filter (\<lambda>r. list_all (\<lambda>v. m_id v \<notin> set vs) (m_vars r)) (m_rows e)"

text \<open>A residue literal over \<open>x\<close>: an uninterpreted predicate applied to it.\<close>

definition lit_p :: expr where "lit_p = EApp ''p'' BoolS [var_x]"

lemma project_encode_residue:
  "project_encode (model_xyz 1 2 3) [var_x] [lit_p] =
     \<lparr>mbo = \<lparr>m_var2value = [1], m_var2is_int = [False], m_rows = [], m_objective = None\<rparr>,
      fmls = [lit_p], tids = [(var_x, 0)]\<rparr>"
  by (simp add: project_encode_def lin_loop.simps linearize_lit.simps register_var_def lit_p_def
      ex_defs run_defs)

text \<open>
  C4. The projection of \<open>V = [x]\<close> from \<open>L = [p(x)]\<close>, in a model of \<open>p(x)\<close>. The literal
  is residue and \<open>x\<close> is a sub-term of it, yet \<open>x\<close> is not kept: its id is handed to the
  engine for elimination, \<^verbatim>\<open>vars\<close> is left empty, and \<open>p(x)\<close> is in the output list. The
  marks of the residue hold the literals themselves and not their sub-terms.
\<close>

theorem project_eliminates_residue_variable:
  "is_true (eval (model_xyz 1 2 3) lit_p)
   \<and> var_x \<in> set (subterms lit_p)
   \<and> project engine_project (model_xyz 1 2 3) [var_x] [lit_p] =
       map_option (\<lambda>lits. ([], lit_p # lits))
         (lift_rows [Some var_x]
            (engine_project
               \<lparr>m_var2value = [1], m_var2is_int = [False], m_rows = [], m_objective = None\<rparr> [0]))
   \<and> project engine_drop (model_xyz 1 2 3) [var_x] [lit_p] = Some ([], [lit_p])"
proof -
  have 1: "is_true (eval (model_xyz 1 2 3) lit_p)"
    by (simp add: lit_p_def is_true_def model_xyz_def)
  have 2: "var_x \<in> set (subterms lit_p)"
    by (simp add: lit_p_def var_x_def)
  have 3: "project ep (model_xyz 1 2 3) [var_x] [lit_p] =
       map_option (\<lambda>lits. ([], lit_p # lits))
         (lift_rows [Some var_x]
            (ep \<lparr>m_var2value = [1], m_var2is_int = [False], m_rows = [], m_objective = None\<rparr> [0]))" for ep
    unfolding project_def project_encode_residue
    by (simp add: fmls_mark_of_def mark_def mark_rec_def is_marked_def index2expr_of_def setx_def
        lit_p_def var_x_def is_arith_def is_real_def is_int_def Let_def split: option.splits)
  show ?thesis using 1 2 3 [of engine_project] 3 [of engine_drop]
    by (simp add: engine_drop_def)
qed

section \<open>Distinct\<close>

lemma sort_nums_mset: "mset (map fst (sort_nums (map (\<lambda>a. (a, f a)) args))) = mset args"
proof -
  have "mset (map fst (sort_key snd xs)) = mset (map fst xs)" for xs :: "(expr \<times> rat) list"
    by (metis mset_map mset_sort)
  then have "mset (map fst (sort_nums (map (\<lambda>a. (a, f a)) args)))
      = mset (map fst (map (\<lambda>a. (a, f a)) args))"
    unfolding sort_nums_def by blast
  also have "map fst (map (\<lambda>a. (a, f a)) args) = args"
    by (induction args) simp_all
  finally show ?thesis .
qed

lemma sort_nums_snd: "map snd (sort_nums (map (\<lambda>a. (a, f a)) args)) = map f (map fst (sort_nums (map (\<lambda>a. (a, f a)) args)))"
proof -
  have "\<forall>p \<in> set (sort_nums (map (\<lambda>a. (a, f a)) args)). snd p = f (fst p)"
    by (auto simp: sort_nums_def)
  then show ?thesis by simp
qed

lemma sorted_distinct_strict:
  "sorted (map f xs) \<Longrightarrow> distinct (map f xs) \<Longrightarrow> sorted_wrt (\<lambda>a b. f a < (f b :: rat)) xs"
  by (induction xs) (auto simp: less_le)

lemma fold_lt_step_true: "fst st \<Longrightarrow> fst (fold (lt_step M) ps st)"
  by (induction ps arbitrary: st) (simp_all add: lt_step_def add_row_last)

text \<open>
  C8. For a \<^verbatim>\<open>distinct\<close> literal with an arithmetic first argument that holds in the
  model, the arguments are evaluated and sorted by their values; the sorted sequence is
  a rearrangement of the arguments, strictly ascending by value, and the literal is
  linearized as the inequalities \<open>a\<^sub>i < a\<^sub>i\<^sub>+\<^sub>1\<close> of its consecutive pairs, each by a
  recursive call, in order. The literal is consumed.
\<close>

theorem linearize_lit_distinct_sorted:
  assumes "args \<noteq> []" and "is_arith (hd args)" and "is_true (eval M (EDistinct args))"
  shows "\<exists>xs. mset xs = mset args
              \<and> sorted_wrt (\<lambda>a b. num (eval M a) < num (eval M b)) xs
              \<and> xs = map fst (sort_nums (map (\<lambda>a. (a, num (eval M a))) args))
              \<and> linearize_lit M (EDistinct args) s =
                  fold (\<lambda>p st. if fst st then linearize_lit M (ELt (fst p) (snd p)) (snd st) else st)
                       (zip xs (tl xs)) (True, s)
              \<and> fst (linearize_lit M (EDistinct args) s) = True"
proof -
  define f where "f = (\<lambda>a. num (eval M a))"
  define xs where "xs = map fst (sort_nums (map (\<lambda>a. (a, f a)) args))"
  have m: "mset xs = mset args" unfolding xs_def by (rule sort_nums_mset)
  have ex: "list_ex is_arith args" using assms(1,2) by (cases args) auto
  with assms(3) have d: "distinct (map f args)" by (simp add: is_true_def f_def)
  have "mset (map f xs) = mset (map f args)" using m by (metis mset_map)
  then have d': "distinct (map f xs)" using d by (metis mset_eq_imp_distinct_iff)
  have "sorted (map snd (sort_nums (map (\<lambda>a. (a, f a)) args)))"
    by (simp add: sort_nums_def)
  then have "sorted (map f xs)" using sort_nums_snd [of f args] by (simp add: xs_def)
  then have s: "sorted_wrt (\<lambda>a b. f a < f b) xs" using d' by (rule sorted_distinct_strict)
  have l: "linearize_lit M (EDistinct args) s = fold (lt_step M) (zip xs (tl xs)) (True, s)"
    using assms(1,2) by (cases args) (simp_all add: linearize_lit_distinct Let_def xs_def f_def)
  have l': "fold (lt_step M) ps st
      = fold (\<lambda>p st. if fst st then linearize_lit M (ELt (fst p) (snd p)) (snd st) else st) ps st" for ps st
    by (simp add: lt_step_def [abs_def] linearize_lit_cases cong: if_cong)
  have t: "fst (linearize_lit M (EDistinct args) s) = True"
    using l fold_lt_step_true [of "(True, s)" M "zip xs (tl xs)"] by simp
  show ?thesis using m s l l' t by (auto simp: xs_def f_def)
qed

theorem linearize_lit_distinct_sorted_witness:
  "linearize_lit (model_xyz 3 1 2) (EDistinct [var_x, var_y, var_z]) (ctx_init []) =
     (True, \<lparr>mbo = \<lparr>m_var2value = [1, 2, 3], m_var2is_int = [False, False, False],
                     m_rows = [\<lparr>m_vars = [\<lparr>m_id = 0, m_coeff = 1\<rparr>, \<lparr>m_id = 1, m_coeff = - 1\<rparr>],
                                r_coeff = 0, m_type = t_lt, m_mod = 0\<rparr>,
                               \<lparr>m_vars = [\<lparr>m_id = 1, m_coeff = 1\<rparr>, \<lparr>m_id = 2, m_coeff = - 1\<rparr>],
                                r_coeff = 0, m_type = t_lt, m_mod = 0\<rparr>],
                     m_objective = None\<rparr>,
             fmls = [], tids = [(var_y, 0), (var_z, 1), (var_x, 2)]\<rparr>)
   \<and> map fst (sort_nums (map (\<lambda>a. (a, num (eval (model_xyz 3 1 2) a))) [var_x, var_y, var_z]))
       = [var_y, var_z, var_x]"
proof -
  have 1: "[var_x, var_y, var_z] \<noteq> []" by simp
  have 2: "is_arith (hd [var_x, var_y, var_z])" by (simp add: ex_defs run_defs)
  have 3: "is_true (eval (model_xyz 3 1 2) (EDistinct [var_x, var_y, var_z]))"
    by (simp add: ex_defs run_defs is_true_def)
  have 4: "map fst (sort_nums (map (\<lambda>a. (a, num (eval (model_xyz 3 1 2) a))) [var_x, var_y, var_z]))
       = [var_y, var_z, var_x]"
    by (simp add: ex_defs sort_nums_def)
  from linearize_lit_distinct_sorted [OF 1 2 3, of "ctx_init []"] show ?thesis
    unfolding 4 by (simp add: linearize_lit_cases) (simp add: ex_defs run_defs)
qed

section \<open>Conditionals\<close>

text \<open>Two runs of the linearizer that start from the same accumulator, engine and
  \<^verbatim>\<open>tids\<close>, and from literal vectors \<open>F\<close> and \<open>F2\<close>, stay in step: they push the same
  literals. What \<^verbatim>\<open>linearize\<close> computes does not depend on the literals already in
  \<^verbatim>\<open>fmls\<close>.\<close>

definition sim :: "expr list \<Rightarrow> expr list \<Rightarrow> lin \<Rightarrow> lin \<Rightarrow> bool" where
  "sim F F2 l l2 =
     (fst l = fst l2 \<and> fst (snd l) = fst (snd l2) \<and> mbo (lctx l) = mbo (lctx l2)
      \<and> tids (lctx l) = tids (lctx l2)
      \<and> (\<exists>gs. fmls (lctx l) = F @ gs \<and> fmls (lctx l2) = F2 @ gs))"





lemma sim_atomic:
  assumes "\<And>ts c s. f (ts, c, s) = (insert_mul x mul ts, c, s)" and "sim F F2 l l2"
  shows "sim F F2 (f l) (f l2)"
proof -
  obtain ts c s where l: "l = (ts, c, s)" by (cases l) auto
  obtain ts2 c2 s2 where l2: "l2 = (ts2, c2, s2)" by (cases l2) auto
  show ?thesis using assms(2) unfolding l l2 assms(1) by (simp add: sim_def)
qed








subsection \<open>The literals a run of the linearizer pushes\<close>















subsection \<open>The residue of the loop\<close>






subsection \<open>The terms a run of the linearizer encounters\<close>












subsection \<open>The guard of a conditional\<close>











section \<open>Soundness of the linearizer\<close>

text \<open>The value of an engine variable is its seed; a row \<open>\<Sum> c\<^sub>i x\<^sub>i + c R 0\<close> holds under
  the seeds when the relation of its type holds of its value, and a row is in order
  when it holds and names registered variables only.\<close>

definition val_at :: "rat list \<Rightarrow> nat \<Rightarrow> rat" where
  "val_at vals i = (if i < length vals then vals ! i else 0)"

definition coeffs_value :: "rat list \<Rightarrow> var list \<Rightarrow> rat" where
  "coeffs_value vals cs = sum_list (map (\<lambda>v. m_coeff v * val_at vals (m_id v)) cs)"

definition type_holds :: "ineq_type \<Rightarrow> rat \<Rightarrow> rat \<Rightarrow> bool" where
  "type_holds ty m v =
     (case ty of t_eq \<Rightarrow> v = 0 | t_lt \<Rightarrow> v < 0 | t_le \<Rightarrow> v \<le> 0 | t_mod \<Rightarrow> mod_val v m = 0)"

definition row_holds :: "rat list \<Rightarrow> row \<Rightarrow> bool" where
  "row_holds vals r = type_holds (m_type r) (m_mod r) (coeffs_value vals (m_vars r) + r_coeff r)"

definition ids_ok :: "rat list \<Rightarrow> var list \<Rightarrow> bool" where
  "ids_ok vals cs = list_all (\<lambda>v. m_id v < length vals) cs"

definition row_ok :: "rat list \<Rightarrow> row \<Rightarrow> bool" where
  "row_ok vals r = (row_holds vals r \<and> ids_ok vals (m_vars r))"

definition rows_ok :: "model_based_opt \<Rightarrow> bool" where
  "rows_ok e = list_all (row_ok (m_var2value e)) (m_rows e)"

text \<open>Modelled from the spec: the contract of the engine's \<^verbatim>\<open>project\<close>. It preserves
  satisfiability under the seeded model: when the rows of the engine are in order, so
  are the rows that are live after the projection.\<close>

definition engine_sound :: "(model_based_opt \<Rightarrow> nat list \<Rightarrow> row list) \<Rightarrow> bool" where
  "engine_sound engine_project =
     (\<forall>e vs. rows_ok e \<longrightarrow> list_all (row_ok (m_var2value e)) (engine_project e vs))"

text \<open>The invariant of the shared state: \<^verbatim>\<open>tids\<close> numbers the registered terms in
  sequence, the seed of each engine variable is the value of its term in the model, the
  rows of the engine are in order, and the literals in \<^verbatim>\<open>fmls\<close> hold in the model.\<close>

definition tids_ok :: "model \<Rightarrow> ctx \<Rightarrow> bool" where
  "tids_ok M s =
     (map snd (tids s) = [0..<length (tids s)]
      \<and> m_var2value (mbo s) = map (\<lambda>p. num (eval M (fst p))) (tids s))"

definition ctx_inv :: "model \<Rightarrow> ctx \<Rightarrow> bool" where
  "ctx_inv M s =
     (tids_ok M s \<and> rows_ok (mbo s) \<and> list_all (\<lambda>l. is_true (eval M l)) (fmls s))"

text \<open>The value of an accumulator in the model.\<close>

definition lin_value :: "model \<Rightarrow> (expr \<times> rat) list \<Rightarrow> rat \<Rightarrow> rat" where
  "lin_value M ts c = sum_list (map (\<lambda>p. snd p * num (eval M (fst p))) ts) + c"

lemma obj_insert_fresh: "map_of m k = None \<Longrightarrow> obj_insert k v m = m @ [(k, v)]"
  by (induction m) (auto split: if_splits)

lemma coeffs_value_ext: "ids_ok vals cs \<Longrightarrow> coeffs_value (vals @ ext) cs = coeffs_value vals cs"
  by (induction cs) (auto simp: coeffs_value_def ids_ok_def val_at_def nth_append)

lemma ids_ok_ext: "ids_ok vals cs \<Longrightarrow> ids_ok (vals @ ext) cs"
  by (induction cs) (auto simp: ids_ok_def)

lemma row_ok_ext: "row_ok vals r \<Longrightarrow> row_ok (vals @ ext) r"
  by (simp add: row_ok_def row_holds_def coeffs_value_ext ids_ok_ext)

lemma rows_ok_add_var: "rows_ok e \<Longrightarrow> rows_ok (snd (add_var r i e))"
  by (auto simp: rows_ok_def add_var_def list_all_iff row_ok_ext)

lemma tids_lookup:
  assumes "tids_ok M s" and "map_of (tids s) v = Some n"
  shows "n < length (m_var2value (mbo s)) \<and> val_at (m_var2value (mbo s)) n = num (eval M v)"
proof -
  from assms(2) have "(v, n) \<in> set (tids s)" by (rule map_of_SomeD)
  then obtain i where i: "i < length (tids s)" "tids s ! i = (v, n)"
    by (auto simp: in_set_conv_nth)
  have "map snd (tids s) ! i = [0..<length (tids s)] ! i" using assms(1) by (simp add: tids_ok_def)
  with i have n: "n = i" by simp
  have "m_var2value (mbo s) ! i = num (eval M v)" using assms(1) i by (simp add: tids_ok_def)
  moreover have "length (m_var2value (mbo s)) = length (tids s)" using assms(1) by (simp add: tids_ok_def)
  ultimately show ?thesis using i n by (simp add: val_at_def)
qed

lemma tids_ok_register:
  assumes "tids_ok M s" and "map_of (tids s) v = None"
  shows "tids_ok M (s\<lparr>mbo := snd (add_var (num (eval M v)) b (mbo s)),
                      tids := obj_insert v (fst (add_var (num (eval M v)) b (mbo s))) (tids s)\<rparr>)"
proof -
  have "length (m_var2value (mbo s)) = length (tids s)" using assms(1) by (simp add: tids_ok_def)
  then show ?thesis using assms
    by (simp add: tids_ok_def obj_insert_fresh add_var_def)
qed

lemma extract_step_inv:
  assumes "ctx_inv M s" and "ids_ok (m_var2value (mbo s)) coeffs"
    and "extract_step M (v, q) (coeffs, s) = (coeffs', s')"
  shows "ctx_inv M s' \<and> ids_ok (m_var2value (mbo s')) coeffs'
         \<and> coeffs_value (m_var2value (mbo s')) coeffs'
             = coeffs_value (m_var2value (mbo s)) coeffs + q * num (eval M v)"
proof (cases "map_of (tids s) v")
  case (Some n)
  from tids_lookup [OF _ Some, of M] assms(1)
  have n: "n < length (m_var2value (mbo s))" "val_at (m_var2value (mbo s)) n = num (eval M v)"
    by (simp_all add: ctx_inv_def)
  have "s' = s" "coeffs' = (if q \<noteq> 0 then coeffs @ [\<lparr>m_id = n, m_coeff = q\<rparr>] else coeffs)"
    using assms(3) Some by (auto simp: extract_step_def Let_def)
  then show ?thesis using assms(1,2) n
    by (auto simp: coeffs_value_def ids_ok_def)
next
  case None
  define e1 where "e1 = add_var (num (eval M v)) (is_int v) (mbo s)"
  have s': "s' = s\<lparr>mbo := snd e1, tids := obj_insert v (fst e1) (tids s)\<rparr>"
    and c': "coeffs' = (if q \<noteq> 0 then coeffs @ [\<lparr>m_id = fst e1, m_coeff = q\<rparr>] else coeffs)"
    using assms(3) None by (auto simp: extract_step_def Let_def e1_def split: prod.splits)
  have t: "tids_ok M s'" unfolding s' e1_def
    using assms(1) None by (intro tids_ok_register) (simp_all add: ctx_inv_def)
  have r: "rows_ok (mbo s')" unfolding s' e1_def
    using assms(1) by (simp add: ctx_inv_def rows_ok_add_var)
  have f: "fmls s' = fmls s" unfolding s' by simp
  have vals: "m_var2value (mbo s') = m_var2value (mbo s) @ [num (eval M v)]"
    "fst e1 = length (m_var2value (mbo s))"
    unfolding s' e1_def by (simp_all add: add_var_def)
  have "coeffs_value (m_var2value (mbo s')) coeffs = coeffs_value (m_var2value (mbo s)) coeffs"
    unfolding vals using assms(2) by (rule coeffs_value_ext)
  moreover have "ids_ok (m_var2value (mbo s')) coeffs"
    unfolding vals using assms(2) by (rule ids_ok_ext)
  moreover have "val_at (m_var2value (mbo s')) (fst e1) = num (eval M v)"
    unfolding vals by (simp add: val_at_def)
  ultimately show ?thesis using t r f assms(1) c' vals
    by (auto simp: ctx_inv_def coeffs_value_def ids_ok_def)
qed

lemma fold_extract_inv:
  assumes "ctx_inv M s" and "ids_ok (m_var2value (mbo s)) coeffs"
    and "fold (extract_step M) ts (coeffs, s) = (coeffs', s')"
  shows "ctx_inv M s' \<and> ids_ok (m_var2value (mbo s')) coeffs'
         \<and> coeffs_value (m_var2value (mbo s')) coeffs'
             = coeffs_value (m_var2value (mbo s)) coeffs + lin_value M ts 0"
  using assms
proof (induction ts arbitrary: coeffs s)
  case Nil
  then show ?case by (simp add: lin_value_def)
next
  case (Cons e ts)
  obtain v q where e: "e = (v, q)" by (cases e) auto
  obtain c1 s1 where 1: "extract_step M (v, q) (coeffs, s) = (c1, s1)"
    by (cases "extract_step M (v, q) (coeffs, s)") auto
  from extract_step_inv [OF Cons.prems(1,2) 1]
  have i1: "ctx_inv M s1" "ids_ok (m_var2value (mbo s1)) c1"
    "coeffs_value (m_var2value (mbo s1)) c1
       = coeffs_value (m_var2value (mbo s)) coeffs + q * num (eval M v)" by simp_all
  have "fold (extract_step M) ts (c1, s1) = (coeffs', s')" using Cons.prems(3) e 1 by simp
  from Cons.IH [OF i1(1,2) this] i1(3) show ?case
    by (simp add: e lin_value_def)
qed

lemma extract_coefficients_inv:
  assumes "ctx_inv M s" and "extract_coefficients M ts s = (coeffs, s')"
  shows "ctx_inv M s' \<and> ids_ok (m_var2value (mbo s')) coeffs
         \<and> coeffs_value (m_var2value (mbo s')) coeffs = lin_value M ts 0"
  using fold_extract_inv [of M s "[]" ts coeffs s'] assms
  by (simp add: extract_coefficients_def ids_ok_def coeffs_value_def)

lemma lin_value_insert:
  "lin_value M (obj_insert x w ts) c
     = lin_value M ts c + (w - (case map_of ts x of Some u \<Rightarrow> u | None \<Rightarrow> 0)) * num (eval M x)"
  by (induction ts) (auto simp: lin_value_def algebra_simps)

lemma lin_value_insert_mul:
  "lin_value M (insert_mul x v ts) c = lin_value M ts c + v * num (eval M x)"
  by (simp add: insert_mul_def lin_value_insert split: option.splits)

lemma fold_is_numeral_mul:
  assumes "\<And>a r. a \<in> set args \<Longrightarrow> is_numeral a = Some r \<Longrightarrow> num (eval M a) = r"
  shows "fold (\<lambda>a acc. case acc of None \<Rightarrow> None
                    | Some r \<Rightarrow> (case is_numeral a of None \<Rightarrow> None | Some r1 \<Rightarrow> Some (r * r1)))
          args (Some r0) = Some r \<Longrightarrow> r = r0 * prod_list (map (\<lambda>a. num (eval M a)) args)"
  using assms
proof (induction args arbitrary: r0)
  case Nil
  then show ?case by simp
next
  case (Cons a args)
  show ?case
  proof (cases "is_numeral a")
    case None
    have "fold (\<lambda>a acc. case acc of None \<Rightarrow> None
                    | Some r \<Rightarrow> (case is_numeral a of None \<Rightarrow> None | Some r1 \<Rightarrow> Some (r * r1)))
          args None = None" by (induction args) simp_all
    with Cons.prems(1) None show ?thesis by simp
  next
    case (Some r1)
    with Cons.prems(2) have "num (eval M a) = r1" by simp
    moreover from Cons.prems(1) Some have "fold (\<lambda>a acc. case acc of None \<Rightarrow> None
                    | Some r \<Rightarrow> (case is_numeral a of None \<Rightarrow> None | Some r1 \<Rightarrow> Some (r * r1)))
          args (Some (r0 * r1)) = Some r" by simp
    from Cons.IH [OF this] Cons.prems(2) have "r = r0 * r1 * prod_list (map (\<lambda>a. num (eval M a)) args)"
      by simp
    ultimately show ?thesis by simp
  qed
qed

lemma fold_is_numeral_add:
  assumes "\<And>a r. a \<in> set args \<Longrightarrow> is_numeral a = Some r \<Longrightarrow> num (eval M a) = r"
  shows "fold (\<lambda>a acc. case acc of None \<Rightarrow> None
                    | Some r \<Rightarrow> (case is_numeral a of None \<Rightarrow> None | Some r1 \<Rightarrow> Some (r + r1)))
          args (Some r0) = Some r \<Longrightarrow> r = r0 + sum_list (map (\<lambda>a. num (eval M a)) args)"
  using assms
proof (induction args arbitrary: r0)
  case Nil
  then show ?case by simp
next
  case (Cons a args)
  show ?case
  proof (cases "is_numeral a")
    case None
    have "fold (\<lambda>a acc. case acc of None \<Rightarrow> None
                    | Some r \<Rightarrow> (case is_numeral a of None \<Rightarrow> None | Some r1 \<Rightarrow> Some (r + r1)))
          args None = None" by (induction args) simp_all
    with Cons.prems(1) None show ?thesis by simp
  next
    case (Some r1)
    with Cons.prems(2) have "num (eval M a) = r1" by simp
    moreover from Cons.prems(1) Some have "fold (\<lambda>a acc. case acc of None \<Rightarrow> None
                    | Some r \<Rightarrow> (case is_numeral a of None \<Rightarrow> None | Some r1 \<Rightarrow> Some (r + r1)))
          args (Some (r0 + r1)) = Some r" by simp
    from Cons.IH [OF this] Cons.prems(2) have "r = r0 + r1 + sum_list (map (\<lambda>a. num (eval M a)) args)"
      by simp
    ultimately show ?thesis by simp
  qed
qed

lemma is_numeral_eval: "is_numeral t = Some r \<Longrightarrow> num (eval M t) = r"
proof (induction t arbitrary: r rule: is_numeral.induct)
  case (3 args)
  from fold_is_numeral_mul [of args M 1 r] 3 show ?case by simp
next
  case (4 args)
  from fold_is_numeral_add [of args M 0 r] 4 show ?case by simp
qed (auto split: option.splits)

text \<open>A call of \<^verbatim>\<open>linearize\<close> on a term is sound when it keeps the invariant and adds the
  multiple of the value of the term to the value of the accumulator.\<close>

abbreviation lv :: "model \<Rightarrow> lin \<Rightarrow> rat" where
  "lv M l \<equiv> lin_value M (fst l) (fst (snd l))"

definition lin_sound :: "model \<Rightarrow> rat \<Rightarrow> rat \<Rightarrow> lin \<Rightarrow> lin \<Rightarrow> bool" where
  "lin_sound M mul v l l' = (ctx_inv M (lctx l') \<and> lv M l' = lv M l + mul * v)"

lemma mod_val_residue: "mod_val (a - mod_val a k) k = 0"
proof (cases "k = 0")
  case True
  then show ?thesis by (simp add: mod_val_def)
next
  case False
  define n where "n = \<lfloor>a / \<bar>k\<bar>\<rfloor>"
  have "a - mod_val a k = \<bar>k\<bar> * of_int n" using False by (simp add: mod_val_def n_def)
  moreover have "mod_val (\<bar>k\<bar> * of_int n) k = 0" using False by (simp add: mod_val_def)
  ultimately show ?thesis by simp
qed

lemma fold_lin_sound:
  assumes "\<And>x l. x \<in> set args \<Longrightarrow> ctx_inv M (lctx l) \<Longrightarrow> lin_sound M mul (num (eval M x)) l (f x l)"
    and "ctx_inv M (lctx l)"
  shows "lin_sound M mul (sum_list (map (\<lambda>a. num (eval M a)) args)) l (fold f args l)"
  using assms
proof (induction args arbitrary: l)
  case Nil
  then show ?case by (simp add: lin_sound_def)
next
  case (Cons a args)
  have 1: "lin_sound M mul (num (eval M a)) l (f a l)" using Cons.prems by simp
  then have "ctx_inv M (lctx (f a l))" by (simp add: lin_sound_def)
  then have "lin_sound M mul (sum_list (map (\<lambda>a. num (eval M a)) args)) (f a l) (fold f args (f a l))"
    using Cons.prems(1) by (intro Cons.IH) simp_all
  with 1 show ?case by (simp add: lin_sound_def algebra_simps)
qed

lemma ctx_inv_push: "ctx_inv M s \<Longrightarrow> is_true (eval M g) \<Longrightarrow> ctx_inv M (s\<lparr>fmls := fmls s @ [g]\<rparr>)"
  by (simp add: ctx_inv_def tids_ok_def)

lemma ctx_inv_add_divides:
  assumes "ctx_inv M s" and "ids_ok (m_var2value (mbo s)) coeffs"
    and "type_holds t_mod m (coeffs_value (m_var2value (mbo s)) coeffs + c)"
  shows "ctx_inv M (s\<lparr>mbo := add_divides coeffs c m (mbo s)\<rparr>)"
  using assms
  by (auto simp: ctx_inv_def tids_ok_def rows_ok_def add_divides_def row_ok_def row_holds_def)

lemma ctx_inv_add_constraint:
  assumes "ctx_inv M s" and "ids_ok (m_var2value (mbo s)) coeffs"
    and "type_holds ty 0 (coeffs_value (m_var2value (mbo s)) coeffs + c)"
  shows "ctx_inv M (s\<lparr>mbo := add_constraint coeffs c ty (mbo s)\<rparr>)"
  using assms
  by (auto simp: ctx_inv_def tids_ok_def rows_ok_def add_constraint_def row_ok_def row_holds_def)

lemma linearize_term_sound:
  "ctx_inv M (lctx l) \<Longrightarrow> lin_sound M mul (num (eval M t)) l (linearize_term M mul t l)"
proof (induction M mul t l rule: linearize_term.induct)
  case (1 M mul t1 t2 ts c s)
  show ?case
  proof (cases "is_numeral t1")
    case (Some k)
    from 1(2) [OF Some] 1(3) is_numeral_eval [OF Some, of M] show ?thesis
      using Some by (simp add: lin_sound_def algebra_simps)
  next
    case None
    show ?thesis
    proof (cases "is_numeral t2")
      case (Some k)
      from 1(1) [OF None Some] 1(3) is_numeral_eval [OF Some, of M] show ?thesis
        using None Some by (simp add: lin_sound_def algebra_simps)
    next
      case n2: None
      then show ?thesis using None 1(3)
        by (simp add: lin_sound_def lin_value_insert_mul del: eval.simps)
    qed
  qed
next
  case (2 M mul args ts c s)
  have "lin_sound M mul (sum_list (map (\<lambda>a. num (eval M a)) args)) (ts, c, s)
          (fold (linearize_term M mul) args (ts, c, s))"
    using 2(2) by (intro fold_lin_sound 2(1)) simp_all
  then show ?case by simp
next
  case (3 M mul t1 t2 ts c s)
  have a: "lin_sound M mul (num (eval M t1)) (ts, c, s) (linearize_term M mul t1 (ts, c, s))"
    using 3(3) by (rule 3(1))
  then have "ctx_inv M (lctx (linearize_term M mul t1 (ts, c, s)))" by (simp add: lin_sound_def)
  then have "lin_sound M (- mul) (num (eval M t2)) (linearize_term M mul t1 (ts, c, s))
               (linearize_term M (- mul) t2 (linearize_term M mul t1 (ts, c, s)))"
    by (rule 3(2))
  with a show ?case by (simp add: lin_sound_def algebra_simps)
next
  case (4 M mul t1 ts c s)
  from 4(1) [OF 4(2)] show ?case by (simp add: lin_sound_def)
next
  case (5 M mul mul1 i ts c s)
  then show ?case by (simp add: lin_sound_def lin_value_def)
next
  case (6 M mul t1 t2 t3 ts c s)
  show ?case
  proof (cases "is_true (eval M t1)")
    case True
    obtain ts' c' s' where r: "linearize_term M mul t2 (ts, c, s) = (ts', c', s')"
      by (cases "linearize_term M mul t2 (ts, c, s)") auto
    from 6(1) [OF True 6(3)] r have "lin_sound M mul (num (eval M t2)) (ts, c, s) (ts', c', s')" by simp
    then have "lin_sound M mul (num (eval M t2)) (ts, c, s) (ts', c', s'\<lparr>fmls := fmls s' @ [t1]\<rparr>)"
      using True by (simp add: lin_sound_def ctx_inv_push)
    then show ?thesis using True r by simp
  next
    case False
    have "is_true (eval M (mk_not t1))" using False by (simp add: mk_not_def is_true_def)
    then have "ctx_inv M (lctx (ts, c, s\<lparr>fmls := fmls s @ [mk_not t1]\<rparr>))"
      using 6(3) by (simp add: ctx_inv_push)
    from 6(2) [OF False this] show ?thesis using False by (simp add: lin_sound_def)
  qed
next
  case (7 M mul t1 t2 ts c s)
  show ?case
  proof (cases "is_numeral t2")
    case None
    then show ?thesis using 7(2)
      by (simp add: lin_sound_def lin_value_insert_mul del: eval.simps)
  next
    case (Some k)
    define r where "r = num (eval M (EMod t1 t2))"
    obtain ts0 c0 s0 where l: "linearize_term M 1 t1 ([], - r, s) = (ts0, c0, s0)"
      by (cases "linearize_term M 1 t1 ([], - r, s)") auto
    obtain coeffs s1 where e: "extract_coefficients M ts0 s0 = (coeffs, s1)"
      by (cases "extract_coefficients M ts0 s0") auto
    have "ctx_inv M (lctx ([], - r, s))" using 7(2) by simp
    from 7(1) [OF Some r_def this] l
    have s0: "ctx_inv M s0" "lin_value M ts0 c0 = num (eval M t1) - r"
      by (simp_all add: lin_sound_def lin_value_def)
    from extract_coefficients_inv [OF s0(1) e]
    have s1: "ctx_inv M s1" "ids_ok (m_var2value (mbo s1)) coeffs"
      "coeffs_value (m_var2value (mbo s1)) coeffs = lin_value M ts0 0" by simp_all
    have "coeffs_value (m_var2value (mbo s1)) coeffs + c0 = num (eval M t1) - r"
      using s1(3) s0(2) by (simp add: lin_value_def)
    moreover have "r = mod_val (num (eval M t1)) k"
      using is_numeral_eval [OF Some, of M] by (simp add: r_def)
    ultimately have "type_holds t_mod k (coeffs_value (m_var2value (mbo s1)) coeffs + c0)"
      by (simp add: type_holds_def mod_val_residue)
    from ctx_inv_add_divides [OF s1(1,2) this]
    have "ctx_inv M (s1\<lparr>mbo := add_divides coeffs c0 k (mbo s1)\<rparr>)" .
    moreover have "linearize_term M mul (EMod t1 t2) (ts, c, s)
                = (ts, c + mul * r, s1\<lparr>mbo := add_divides coeffs c0 k (mbo s1)\<rparr>)"
      using Some l e r_def [symmetric] by (simp del: eval.simps)
    ultimately show ?thesis
      by (simp add: lin_sound_def lin_value_def r_def del: eval.simps)
  qed
qed (simp_all add: lin_sound_def lin_value_insert_mul del: eval.simps)


lemma add_row_inv:
  assumes "ctx_inv M (lctx l)" and "type_holds ty 0 (lv M l)"
  shows "ctx_inv M (snd (add_row M ty l))"
proof -
  obtain ts c s where l: "l = (ts, c, s)" by (cases l) auto
  obtain coeffs s1 where e: "extract_coefficients M ts s = (coeffs, s1)"
    by (cases "extract_coefficients M ts s") auto
  have "ctx_inv M s" using assms(1) by (simp add: l)
  from extract_coefficients_inv [OF this e]
  have s1: "ctx_inv M s1" "ids_ok (m_var2value (mbo s1)) coeffs"
    "coeffs_value (m_var2value (mbo s1)) coeffs = lin_value M ts 0" by (simp_all add: l)
  have "type_holds ty 0 (coeffs_value (m_var2value (mbo s1)) coeffs + c)"
    using assms(2) s1(3) by (simp add: l lin_value_def)
  from ctx_inv_add_constraint [OF s1(1,2) this] show ?thesis
    using e by (simp add: add_row_def l)
qed

lemma lin_diff_sound:
  assumes "ctx_inv M s"
  shows "ctx_inv M (lctx (lin_diff M mul e1 e2 s))
         \<and> lv M (lin_diff M mul e1 e2 s) = mul * (num (eval M e1) - num (eval M e2))"
proof -
  have a: "lin_sound M mul (num (eval M e1)) ([], 0, s) (linearize_term M mul e1 ([], 0, s))"
    using assms by (intro linearize_term_sound) simp
  then have "ctx_inv M (lctx (linearize_term M mul e1 ([], 0, s)))" by (simp add: lin_sound_def)
  then have "lin_sound M (- mul) (num (eval M e2)) (linearize_term M mul e1 ([], 0, s))
               (linearize_term M (- mul) e2 (linearize_term M mul e1 ([], 0, s)))"
    by (rule linearize_term_sound)
  with a show ?thesis by (simp add: lin_sound_def lin_diff_def lin_value_def algebra_simps)
qed

lemma add_row_lin_diff_inv:
  assumes "ctx_inv M s" and "type_holds ty 0 (mul * (num (eval M e1) - num (eval M e2)))"
  shows "ctx_inv M (snd (add_row M ty (lin_diff M mul e1 e2 s)))"
  using lin_diff_sound [OF assms(1), of mul e1 e2] assms(2)
  by (intro add_row_inv) simp_all

lemma fold_lt_step_inv:
  assumes "ctx_inv M (snd st)"
    and "\<And>p. p \<in> set ps \<Longrightarrow> num (eval M (fst p)) < num (eval M (snd p))"
  shows "ctx_inv M (snd (fold (lt_step M) ps st))"
  using assms
proof (induction ps arbitrary: st)
  case Nil
  then show ?case by simp
next
  case (Cons p ps)
  have "num (eval M (fst p)) < num (eval M (snd p))" using Cons.prems(2) by simp
  then have "ctx_inv M (snd (lt_step M p st))"
    using Cons.prems(1) by (auto simp: lt_step_def type_holds_def intro!: add_row_lin_diff_inv)
  then show ?case using Cons.prems(2) by (simp add: Cons.IH)
qed

lemma sorted_wrt_pairs: "sorted_wrt P xs \<Longrightarrow> p \<in> set (zip xs (tl xs)) \<Longrightarrow> P (fst p) (snd p)"
proof (induction xs)
  case Nil
  then show ?case by simp
next
  case (Cons a xs)
  then show ?case by (cases xs) auto
qed

lemma find_eq_vals:
  assumes "find_eq M xs vals = Some (a, b)"
    and "\<And>r y. map_of vals r = Some y \<Longrightarrow> num (eval M y) = r"
  shows "num (eval M a) = num (eval M b)"
  using assms
proof (induction xs arbitrary: vals)
  case Nil
  then show ?case by simp
next
  case (Cons x xs)
  show ?case
  proof (cases "map_of vals (num (eval M x))")
    case None
    with Cons.prems(1) have f: "find_eq M xs (obj_insert (num (eval M x)) x vals) = Some (a, b)"
      by (simp add: Let_def)
    show ?thesis
    proof (rule Cons.IH [OF f])
      fix r y assume "map_of (obj_insert (num (eval M x)) x vals) r = Some y"
      then show "num (eval M y) = r"
        using Cons.prems(2) by (auto simp: map_of_obj_insert split: if_splits)
    qed
  next
    case (Some y)
    with Cons.prems(1) have "a = x" "b = y" by (simp_all add: Let_def)
    then show ?thesis using Cons.prems(2) [OF Some] by simp
  qed
qed

lemma linearize_lit_sound:
  assumes "ctx_inv M s" and "is_true (eval M lit)"
  shows "ctx_inv M (snd (linearize_lit M lit s))"
proof -
  have distinct_case: "ctx_inv M (snd (linearize_lit M (EDistinct args) s))"
    if t: "is_true (eval M (EDistinct args))" for args
  proof (cases "args = [] \<or> \<not> is_arith (hd args)")
    case True
    then show ?thesis using assms(1) by (auto simp: linearize_lit_distinct split: list.splits)
  next
    case False
    define f where "f = (\<lambda>a. num (eval M a))"
    define xs where "xs = map fst (sort_nums (map (\<lambda>a. (a, f a)) args))"
    have m: "mset xs = mset args" unfolding xs_def by (rule sort_nums_mset)
    have ex: "list_ex is_arith args" using False by (cases args) auto
    with t have d: "distinct (map f args)" by (simp add: is_true_def f_def)
    have "mset (map f xs) = mset (map f args)" using m by (metis mset_map)
    then have d': "distinct (map f xs)" using d by (metis mset_eq_imp_distinct_iff)
    have "sorted (map snd (sort_nums (map (\<lambda>a. (a, f a)) args)))"
      by (simp add: sort_nums_def)
    then have "sorted (map f xs)" using sort_nums_snd [of f args] by (simp add: xs_def)
    then have sw: "sorted_wrt (\<lambda>a b. f a < f b) xs" using d' by (rule sorted_distinct_strict)
    have "ctx_inv M (snd (fold (lt_step M) (zip xs (tl xs)) (True, s)))"
    proof (rule fold_lt_step_inv)
      show "ctx_inv M (snd (True, s))" using assms(1) by simp
    next
      fix p assume "p \<in> set (zip xs (tl xs))"
      from sorted_wrt_pairs [OF sw this] show "num (eval M (fst p)) < num (eval M (snd p))"
        by (simp add: f_def)
    qed
    moreover have "linearize_lit M (EDistinct args) s = fold (lt_step M) (zip xs (tl xs)) (True, s)"
      using False by (cases args) (simp_all add: linearize_lit_distinct Let_def xs_def f_def)
    ultimately show ?thesis by simp
  qed
  have ndistinct_case: "ctx_inv M (snd (linearize_lit M (ENot (EDistinct args)) s))" for args
  proof (cases "find_eq M args []")
    case None
    have "ctx_inv M (snd (add_row M t_le ([], 0, s)))"
      using assms(1) by (intro add_row_inv) (simp_all add: type_holds_def lin_value_def)
    then show ?thesis using None assms(1)
      by (auto simp: linearize_lit_not_distinct split: list.splits)
  next
    case (Some p)
    obtain a b where p: "p = (a, b)" by (cases p)
    from find_eq_vals [where xs = args and vals = "[]" and a = a and b = b and M = M] Some p
    have "num (eval M a) = num (eval M b)" by simp
    then have "ctx_inv M (snd (add_row M t_eq (lin_diff M (- 1) a b s)))"
      using assms(1) by (intro add_row_lin_diff_inv) (simp_all add: type_holds_def)
    then show ?thesis using Some p assms(1)
      by (auto simp: linearize_lit_not_distinct split: list.splits)
  qed
  show ?thesis
  proof (cases "is_cmp lit \<or> (\<exists>l. lit = ENot l \<and> is_cmp l)")
    case False
    then show ?thesis using linearize_lit_other [of lit M s] assms(1) by simp
  next
    case True
    then show ?thesis
    proof
      assume "is_cmp lit"
      then show ?thesis using distinct_case assms
        by (cases lit)
           (auto simp: is_cmp_def linearize_lit_cases linearize_lit_eq type_holds_def is_true_def
              intro!: add_row_lin_diff_inv)
    next
      assume "\<exists>l. lit = ENot l \<and> is_cmp l"
      then obtain l where l: "lit = ENot l" "is_cmp l" by blast
      then show ?thesis using ndistinct_case assms
        by (cases l)
           (auto simp: is_cmp_def linearize_lit_cases linearize_lit_neq type_holds_def is_true_def
              intro!: add_row_lin_diff_inv)
    qed
  qed
qed

section \<open>Soundness of the projection\<close>

lemma ctx_inv_fmls: "ctx_inv M s \<Longrightarrow> set F \<subseteq> set (fmls s) \<Longrightarrow> ctx_inv M (s\<lparr>fmls := F\<rparr>)"
  by (auto simp: ctx_inv_def tids_ok_def list_all_iff)

lemma lin_loop_inv: "ctx_inv M s \<Longrightarrow> ctx_inv M (snd (lin_loop M i j s))"
proof (induction M i j s rule: lin_loop.induct)
  case (1 M i j s)
  show ?case
  proof (cases "i < length (fmls s) \<and> j \<le> i")
    case True
    obtain b s' where r: "linearize_lit M (fmls s ! i) s = (b, s')"
      by (cases "linearize_lit M (fmls s ! i) s") auto
    have "is_true (eval M (fmls s ! i))"
      using 1(3) True by (simp add: ctx_inv_def list_all_length)
    from linearize_lit_sound [OF 1(3) this] r have inv: "ctx_inv M s'" by simp
    from linearize_lit_pushed [of s M "fmls s ! i"] r
    have len: "i < length (fmls s')" using True by (auto simp: pushed_def)
    show ?thesis
    proof (cases b)
      case b: True
      from 1(2) [OF True r [symmetric]] b inv
      have "ctx_inv M (snd (lin_loop M (i + 1) j s'))" by simp
      then show ?thesis using True r b by (simp add: lin_loop_step)
    next
      case b: False
      define s'' where "s'' = (if i \<noteq> j then s'\<lparr>fmls := (fmls s')[j := fmls s' ! i]\<rparr> else s')"
      have "set ((fmls s')[j := fmls s' ! i]) \<subseteq> set (fmls s')"
        using len by (metis insert_absorb nth_mem set_update_subset_insert)
      then have "ctx_inv M s''" using inv by (simp add: s''_def ctx_inv_fmls)
      with 1(1) [OF True r [symmetric]] b
      have "ctx_inv M (snd (lin_loop M (i + 1) (j + 1) s''))" by (simp add: s''_def)
      then show ?thesis using True r b by (simp add: lin_loop_step s''_def)
    qed
  next
    case False
    then show ?thesis using 1(3) by (simp add: lin_loop_stop)
  qed
qed

lemma register_var_inv: "ctx_inv M s \<Longrightarrow> ctx_inv M (register_var M v s)"
proof (cases "is_arith v \<and> map_of (tids s) v = None")
  case True
  assume inv: "ctx_inv M s"
  have "tids_ok M (s\<lparr>mbo := snd (add_var (num (eval M v)) (is_int v) (mbo s)),
                      tids := obj_insert v (fst (add_var (num (eval M v)) (is_int v) (mbo s))) (tids s)\<rparr>)"
    using inv True by (intro tids_ok_register) (simp_all add: ctx_inv_def)
  then show ?thesis using True inv rows_ok_add_var [of "mbo s" "num (eval M v)" "is_int v"]
    by (simp add: register_var_def ctx_inv_def Let_def case_prod_beta)
next
  case False
  assume "ctx_inv M s"
  then show ?thesis using False by (auto simp: register_var_def)
qed

lemma fold_register_var_inv: "ctx_inv M s \<Longrightarrow> ctx_inv M (fold (register_var M) vs s)"
  by (induction vs arbitrary: s) (simp_all add: register_var_inv)

lemma ctx_inv_init: "list_all (\<lambda>l. is_true (eval M l)) fmls0 \<Longrightarrow>
    ctx_inv M \<lparr>mbo = mbo_init, fmls = fmls0, tids = []\<rparr>"
  by (simp add: ctx_inv_def tids_ok_def rows_ok_def mbo_init_def)

lemma project_encode_inv:
  assumes "list_all (\<lambda>l. is_true (eval M l)) fmls0"
  shows "ctx_inv M (project_encode M vars fmls0)"
proof -
  obtain j s1 where r: "lin_loop M 0 0 \<lparr>mbo = mbo_init, fmls = fmls0, tids = []\<rparr> = (j, s1)"
    by (cases "lin_loop M 0 0 \<lparr>mbo = mbo_init, fmls = fmls0, tids = []\<rparr>") auto
  from lin_loop_inv [OF ctx_inv_init [OF assms], of 0 0] r have "ctx_inv M s1" by simp
  then have "ctx_inv M (s1\<lparr>fmls := take j (fmls s1)\<rparr>)"
    by (rule ctx_inv_fmls) (simp add: set_take_subset)
  then show ?thesis using r by (simp add: project_encode_def fold_register_var_inv)
qed

lemma fold_setx:
  assumes "\<And>i. i < length ti \<Longrightarrow> snd (ti ! i) = length xs + i"
  shows "fold (\<lambda>p xs. setx (snd p) (fst p) xs) ti xs = xs @ map (\<lambda>p. Some (fst p)) ti"
  using assms
proof (induction ti arbitrary: xs)
  case Nil
  then show ?case by simp
next
  case (Cons p ps)
  from Cons.prems [of 0] have p: "snd p = length xs" by simp
  have "\<And>i. i < length ps \<Longrightarrow> snd (ps ! i) = length (xs @ [Some (fst p)]) + i"
    using Cons.prems [of "Suc i" for i] by simp
  from Cons.IH [OF this] show ?case by (simp add: p setx_def)
qed

lemma index2expr_of_tids:
  assumes "tids_ok M s"
  shows "index2expr_of (tids s) = map (\<lambda>p. Some (fst p)) (tids s)"
proof -
  have "snd (tids s ! i) = i" if "i < length (tids s)" for i
  proof -
    have "map snd (tids s) ! i = [0..<length (tids s)] ! i" using assms by (simp add: tids_ok_def)
    then show ?thesis using that by simp
  qed
  then show ?thesis using fold_setx [of "tids s" "[]"] by (simp add: index2expr_of_def)
qed

lemma ix_tids:
  assumes "tids_ok M s" and "n < length (m_var2value (mbo s))"
  shows "\<exists>t. ix (index2expr_of (tids s)) n = Some t \<and> val_at (m_var2value (mbo s)) n = num (eval M t)"
proof -
  have "length (m_var2value (mbo s)) = length (tids s)" using assms(1) by (simp add: tids_ok_def)
  then show ?thesis using assms
    by (simp add: index2expr_of_tids [OF assms(1)] ix_def val_at_def tids_ok_def)
qed

lemma lift_vars_sound:
  assumes "tids_ok M s" and "ids_ok (m_var2value (mbo s)) vs"
  shows "\<exists>ts. lift_vars (index2expr_of (tids s)) vs = Some ts \<and> length ts = length vs
              \<and> sum_list (map (\<lambda>t. num (eval M t)) ts) = coeffs_value (m_var2value (mbo s)) vs"
  using assms(2)
proof (induction vs)
  case Nil
  then show ?case by (simp add: coeffs_value_def)
next
  case (Cons v vs)
  then have "m_id v < length (m_var2value (mbo s))" "ids_ok (m_var2value (mbo s)) vs"
    by (simp_all add: ids_ok_def)
  from ix_tids [OF assms(1) this(1)] Cons.IH [OF this(2)]
  obtain t ts where t: "ix (index2expr_of (tids s)) (m_id v) = Some t"
      "val_at (m_var2value (mbo s)) (m_id v) = num (eval M t)"
    and ts: "lift_vars (index2expr_of (tids s)) vs = Some ts" "length ts = length vs"
      "sum_list (map (\<lambda>t. num (eval M t)) ts) = coeffs_value (m_var2value (mbo s)) vs"
    by blast
  show ?case using t ts by (simp add: coeffs_value_def)
qed

lemma is_arith_num: "is_arith (ENum q b)"
  by (simp add: is_arith_def is_int_def is_real_def)

lemma is_arith_mod: "is_arith (EMod a b)"
  by (simp add: is_arith_def is_int_def)

lemma lift_row_sound:
  assumes "tids_ok M s" and "row_ok (m_var2value (mbo s)) r"
  shows "\<exists>ls. lift_row (index2expr_of (tids s)) r = Some ls \<and> list_all (\<lambda>l. is_true (eval M l)) ls"
proof (cases "m_vars r = []")
  case True
  then show ?thesis by (simp add: lift_row_def)
next
  case False
  define vals where "vals = m_var2value (mbo s)"
  have ok: "ids_ok vals (m_vars r)" and h: "row_holds vals r"
    using assms(2) by (simp_all add: row_ok_def vals_def)
  show ?thesis
  proof (cases "length (m_vars r) = 1 \<and> m_coeff (m_vars r ! 0) < 0 \<and> m_type r \<noteq> t_mod")
    case True
    then obtain v where v: "m_vars r = [v]" by (cases "m_vars r") auto
    with ok have "m_id v < length (m_var2value (mbo s))" by (simp add: ids_ok_def vals_def)
    from ix_tids [OF assms(1) this] obtain t0 where
      t0: "ix (index2expr_of (tids s)) (m_id v) = Some t0" "val_at vals (m_id v) = num (eval M t0)"
      by (auto simp: vals_def)
    have hv: "type_holds (m_type r) (m_mod r) (m_coeff v * num (eval M t0) + r_coeff r)"
      using h v t0 by (simp add: row_holds_def coeffs_value_def)
    show ?thesis using True v t0(1) hv
      by (cases "m_type r")
         (auto simp: lift_row_def Let_def type_holds_def is_true_def is_arith_num)
  next
    case general: False
    from lift_vars_sound [OF assms(1), of "m_vars r"] ok
    obtain ts where ts: "lift_vars (index2expr_of (tids s)) (m_vars r) = Some ts"
      "length ts = length (m_vars r)" "sum_list (map (\<lambda>t. num (eval M t)) ts) = coeffs_value vals (m_vars r)"
      by (auto simp: vals_def)
    let ?t = "if length ts = 1 then ts ! 0 else EAdd ts"
    let ?c = "ENum (- r_coeff r) (is_int (last ts))"
    have "num (eval M ?t) = sum_list (map (\<lambda>t. num (eval M t)) ts)"
    proof (cases "length ts = 1")
      case True
      then obtain a where "ts = [a]" by (cases ts) auto
      then show ?thesis by simp
    next
      case False
      then show ?thesis by simp
    qed
    then have tv: "num (eval M ?t) = coeffs_value vals (m_vars r)" using ts(3) by simp
    have hv: "type_holds (m_type r) (m_mod r) (num (eval M ?t) + r_coeff r)"
      using h tv by (simp add: row_holds_def)
    have n0: "\<not> length (m_vars r) = 0" using False by simp
    have res: "lift_row (index2expr_of (tids s)) r =
        Some [case m_type r of
                t_lt \<Rightarrow> ELt ?t ?c
              | t_le \<Rightarrow> ELe ?t ?c
              | t_eq \<Rightarrow> EEq ?t ?c
              | t_mod \<Rightarrow> EEq (EMod (if r_coeff r \<noteq> 0 then ESub ?t ?c else ?t) (ENum (m_mod r) True))
                               (ENum 0 True)]"
      unfolding lift_row_def if_not_P [OF n0] if_not_P [OF general] ts(1) Let_def by simp
    show ?thesis unfolding res using hv
      by (cases "m_type r")
         (auto simp: type_holds_def is_true_def is_arith_num is_arith_mod simp del: eval.simps(3))
  qed
qed

lemma lift_rows_sound:
  assumes "tids_ok M s" and "list_all (row_ok (m_var2value (mbo s))) rows"
  shows "\<exists>ls. lift_rows (index2expr_of (tids s)) rows = Some ls \<and> list_all (\<lambda>l. is_true (eval M l)) ls"
  using assms(2)
proof (induction rows)
  case Nil
  then show ?case by simp
next
  case (Cons r rows)
  then have "row_ok (m_var2value (mbo s)) r" "list_all (row_ok (m_var2value (mbo s))) rows"
    by simp_all
  from lift_row_sound [OF assms(1) this(1)] Cons.IH [OF this(2)]
  show ?case by auto
qed

text \<open>
  C1. When the engine's projection keeps its contract and the model satisfies every
  literal of \<open>L\<close>, the projection entry point returns, and the model satisfies every
  literal of the list it leaves: the residue literals, the guards pushed by the
  linearizer that were not consumed, and the literals lifted from the live rows.
\<close>

theorem project_preserves_model:
  assumes "engine_sound engine_project" and "list_all (\<lambda>l. is_true (eval M l)) fmls0"
  shows "\<exists>vars' fmls'. project engine_project M vars fmls0 = Some (vars', fmls')
           \<and> list_all (\<lambda>l. is_true (eval M l)) fmls'"
proof (cases "list_ex is_arith vars")
  case False
  then show ?thesis using assms(2) by (simp add: project_def)
next
  case True
  define s3 where "s3 = project_encode M vars fmls0"
  have inv: "ctx_inv M s3" unfolding s3_def using assms(2) by (rule project_encode_inv)
  then have t: "tids_ok M s3" and r: "rows_ok (mbo s3)"
    and f: "list_all (\<lambda>l. is_true (eval M l)) (fmls s3)"
    by (simp_all add: ctx_inv_def)
  define fmls_mark where "fmls_mark = fmls_mark_of vars s3"
  define real_vars where "real_vars =
    concat (map (\<lambda>v. if is_arith v \<and> \<not> is_marked fmls_mark v
                      then (case map_of (tids s3) v of Some n \<Rightarrow> [n] | None \<Rightarrow> [])
                      else []) vars)"
  have "list_all (row_ok (m_var2value (mbo s3))) (engine_project (mbo s3) real_vars)"
    using assms(1) r by (simp add: engine_sound_def)
  from lift_rows_sound [OF t this]
  obtain ls where ls: "lift_rows (index2expr_of (tids s3)) (engine_project (mbo s3) real_vars) = Some ls"
    "list_all (\<lambda>l. is_true (eval M l)) ls" by blast
  show ?thesis using True f ls
    by (simp add: project_def Let_def s3_def [symmetric] fmls_mark_def [symmetric]
        real_vars_def [symmetric])
qed

text \<open>The engine of the examples keeps the contract. The projection of \<open>x\<close> from
  \<open>x \<le> 5\<close> and \<open>y \<ge> 3\<close> in the model \<open>x = 4\<close>, \<open>y = 3\<close> leaves \<open>y \<ge> 3\<close>.\<close>

lemma engine_drop_sound: "engine_sound engine_drop"
  by (auto simp: engine_sound_def engine_drop_def rows_ok_def list_all_iff)

definition fmls_xy :: "expr list" where
  "fmls_xy = [ELe var_x (ENum 5 False), EGe var_y (ENum 3 False)]"

lemma project_encode_xy:
  "project_encode (model_xyz 4 3 0) [var_x] fmls_xy =
     \<lparr>mbo = \<lparr>m_var2value = [4, 3], m_var2is_int = [False, False],
             m_rows = [\<lparr>m_vars = [\<lparr>m_id = 0, m_coeff = 1\<rparr>], r_coeff = - 5, m_type = t_le, m_mod = 0\<rparr>,
                       \<lparr>m_vars = [\<lparr>m_id = 1, m_coeff = - 1\<rparr>], r_coeff = 3, m_type = t_le, m_mod = 0\<rparr>],
             m_objective = None\<rparr>,
      fmls = [], tids = [(var_x, 0), (var_y, 1)]\<rparr>"
  by (simp add: project_encode_def fmls_xy_def lin_loop.simps linearize_lit_cases register_var_def
      ex_defs run_defs)

lemma project_xy:
  "project engine_drop (model_xyz 4 3 0) [var_x] fmls_xy = Some ([], [EGe var_y (ENum 3 False)])"
  apply (simp add: project_def project_encode_xy)
  apply (simp add: fmls_mark_of_def mark_def mark_rec_def is_marked_def index2expr_of_def setx_def
      var_x_def var_y_def is_arith_def is_real_def is_int_def Let_def)
  apply (simp add: engine_drop_def)
  apply (simp add: lift_row_def ix_def is_int_def)
  done

theorem project_preserves_model_witness:
  "engine_sound engine_drop
   \<and> list_all (\<lambda>l. is_true (eval (model_xyz 4 3 0) l)) fmls_xy
   \<and> project engine_drop (model_xyz 4 3 0) [var_x] fmls_xy = Some ([], [EGe var_y (ENum 3 False)])
   \<and> is_true (eval (model_xyz 4 3 0) (EGe var_y (ENum 3 False)))"
proof -
  have 1: "list_all (\<lambda>l. is_true (eval (model_xyz 4 3 0) l)) fmls_xy"
    by (simp add: fmls_xy_def ex_defs is_true_def)
  from project_preserves_model [OF engine_drop_sound 1, of "[var_x]"]
  show ?thesis using engine_drop_sound 1 by (simp add: project_xy)
qed

section \<open>Divisibility rows\<close>



























end
